theory Spec2Isabelle
  imports Complex_Main
begin

section \<open>Scalars, failures and console output\<close>

text \<open>
  The program computes with C++ \<^verbatim>\<open>double\<close>. The embedding takes every \<^verbatim>\<open>double\<close> to be a
  \<^typ>\<open>real\<close>: rounding is left out, and a place where the program would produce a NaN or an
  infinity (a division by a zero count, \<^verbatim>\<open>asin\<close> outside \<open>[-1, 1]\<close>) is a failure
  \<open>NotFinite\<close> of the model, so that nothing is ever proved about a value the reals do not have.
  Indices and sizes are natural numbers; the iteration counter is an \<^typ>\<open>int\<close> (the source's
  \<^verbatim>\<open>int\<close> is only ever decremented while positive, so it never wraps).
\<close>

datatype error =
    OutOfRange
  | EigenAssert
  | VectorIndex
  | NotFinite

text \<open>
  \<^item> \<open>OutOfRange\<close>: \<^verbatim>\<open>std::out_of_range\<close>, thrown by \<^verbatim>\<open>std::vector::at\<close>;
  \<^item> \<open>EigenAssert\<close>: the matrix library's assertion on an index or on the shapes of the
    operands (an abort in a checked build, undefined behaviour otherwise);
  \<^item> \<open>VectorIndex\<close>: \<^verbatim>\<open>std::vector::operator[]\<close> past the end (undefined behaviour);
  \<^item> \<open>NotFinite\<close>: the program goes on with a NaN or an infinity.
\<close>

datatype console_line =
    MismatchLine
  | ErrorLine real

text \<open>
  What \<^verbatim>\<open>std::cout\<close> receives: \<open>MismatchLine\<close> is the line
  \<^verbatim>\<open>Error, matrix size mismatch.\<close> and \<open>ErrorLine e\<close> the line \<^verbatim>\<open>Error: e\<close>.
\<close>

definition and_then :: "error + 'a \<Rightarrow> ('a \<Rightarrow> error + 'b) \<Rightarrow> error + 'b" where
  "and_then m f = (case m of Inl e \<Rightarrow> Inl e | Inr x \<Rightarrow> f x)"

fun for_each :: "nat list \<Rightarrow> (nat \<Rightarrow> 's \<Rightarrow> error + 's) \<Rightarrow> 's \<Rightarrow> error + 's" where
  "for_each [] body s = Inr s"
| "for_each (i # is) body s = and_then (body i s) (for_each is body)"

definition for_loop :: "nat \<Rightarrow> (nat \<Rightarrow> 's \<Rightarrow> error + 's) \<Rightarrow> 's \<Rightarrow> error + 's" where
  \<comment> \<open>\<^verbatim>\<open>for (int i = 0; i < n; i++) body\<close>, the bound \<open>n\<close> being constant in every loop of the source\<close>
  "for_loop n body s = for_each [0..<n] body s"

definition vec_at :: "'a list \<Rightarrow> nat \<Rightarrow> error + 'a" where
  \<comment> \<open>\<^verbatim>\<open>std::vector::at\<close>\<close>
  "vec_at xs i = (if i < length xs then Inr (xs ! i) else Inl OutOfRange)"

definition fdiv :: "real \<Rightarrow> nat \<Rightarrow> error + real" where
  \<comment> \<open>\<^verbatim>\<open>double / int\<close>: a zero divisor gives a NaN or an infinity\<close>
  "fdiv x n = (if n = 0 then Inl NotFinite else Inr (x / real n))"

definition PI :: real where
  "PI = 3.14159265"

section \<open>The dense matrix of the linear-algebra library\<close>

record matrix =
  nrows :: nat
  ncols :: nat
  cell :: "nat \<Rightarrow> nat \<Rightarrow> real"

definition fill :: "nat \<Rightarrow> nat \<Rightarrow> (nat \<Rightarrow> nat \<Rightarrow> real) \<Rightarrow> matrix" where
  "fill r c f = \<lparr>nrows = r, ncols = c, cell = (\<lambda>i j. if i < r \<and> j < c then f i j else 0)\<rparr>"

definition uninit :: "nat \<Rightarrow> nat \<Rightarrow> (nat \<Rightarrow> nat \<Rightarrow> real) \<Rightarrow> matrix" where
  \<comment> \<open>\<^verbatim>\<open>Eigen::MatrixXd m(r, c)\<close>: the cells hold whatever the memory \<open>u\<close> held\<close>
  "uninit r c u = fill r c u"

definition Zero :: "nat \<Rightarrow> nat \<Rightarrow> matrix" where
  "Zero r c = fill r c (\<lambda>i j. 0)"

definition Ones :: "nat \<Rightarrow> nat \<Rightarrow> matrix" where
  "Ones r c = fill r c (\<lambda>i j. 1)"

definition Identity :: "nat \<Rightarrow> nat \<Rightarrow> matrix" where
  "Identity r c = fill r c (\<lambda>i j. if i = j then 1 else 0)"

definition msize :: "matrix \<Rightarrow> nat" where
  "msize m = nrows m * ncols m"

definition coeff :: "matrix \<Rightarrow> nat \<Rightarrow> nat \<Rightarrow> error + real" where
  \<comment> \<open>reading \<^verbatim>\<open>m(i, j)\<close>\<close>
  "coeff m i j = (if i < nrows m \<and> j < ncols m then Inr (cell m i j) else Inl EigenAssert)"

definition set_coeff :: "matrix \<Rightarrow> nat \<Rightarrow> nat \<Rightarrow> real \<Rightarrow> error + matrix" where
  \<comment> \<open>writing \<^verbatim>\<open>m(i, j) = v\<close>\<close>
  "set_coeff m i j v =
     (if i < nrows m \<and> j < ncols m
      then Inr (m\<lparr>cell := (\<lambda>a b. if a = i \<and> b = j then v else cell m a b)\<rparr>)
      else Inl EigenAssert)"

definition transpose_m :: "matrix \<Rightarrow> matrix" where
  "transpose_m m = fill (ncols m) (nrows m) (\<lambda>i j. cell m j i)"

definition mat_add :: "matrix \<Rightarrow> matrix \<Rightarrow> error + matrix" where
  "mat_add a b =
     (if nrows a = nrows b \<and> ncols a = ncols b
      then Inr (fill (nrows a) (ncols a) (\<lambda>i j. cell a i j + cell b i j))
      else Inl EigenAssert)"

definition mat_sub :: "matrix \<Rightarrow> matrix \<Rightarrow> error + matrix" where
  "mat_sub a b =
     (if nrows a = nrows b \<and> ncols a = ncols b
      then Inr (fill (nrows a) (ncols a) (\<lambda>i j. cell a i j - cell b i j))
      else Inl EigenAssert)"

definition mat_mul :: "matrix \<Rightarrow> matrix \<Rightarrow> error + matrix" where
  "mat_mul a b =
     (if ncols a = nrows b
      then Inr (fill (nrows a) (ncols b) (\<lambda>i j. \<Sum>k<ncols a. cell a i k * cell b k j))
      else Inl EigenAssert)"

definition scale_left :: "real \<Rightarrow> matrix \<Rightarrow> matrix" where
  \<comment> \<open>\<^verbatim>\<open>x * m\<close>\<close>
  "scale_left x m = fill (nrows m) (ncols m) (\<lambda>i j. x * cell m i j)"

definition scale_right :: "matrix \<Rightarrow> real \<Rightarrow> matrix" where
  \<comment> \<open>\<^verbatim>\<open>m * x\<close>\<close>
  "scale_right m x = fill (nrows m) (ncols m) (\<lambda>i j. cell m i j * x)"

definition row_sum :: "matrix \<Rightarrow> nat \<Rightarrow> error + real" where
  \<comment> \<open>\<^verbatim>\<open>m.row(r).sum()\<close>\<close>
  "row_sum m r = (if r < nrows m then Inr (\<Sum>j<ncols m. cell m r j) else Inl EigenAssert)"

definition col_sum :: "matrix \<Rightarrow> nat \<Rightarrow> error + real" where
  \<comment> \<open>\<^verbatim>\<open>m.col(c).sum()\<close>\<close>
  "col_sum m c = (if c < ncols m then Inr (\<Sum>i<nrows m. cell m i c) else Inl EigenAssert)"

definition get_row :: "matrix \<Rightarrow> nat \<Rightarrow> error + matrix" where
  \<comment> \<open>reading \<^verbatim>\<open>m.row(r)\<close>, a \<open>1 \<times> cols\<close> matrix\<close>
  "get_row m r =
     (if r < nrows m then Inr (fill 1 (ncols m) (\<lambda>i j. cell m r j)) else Inl EigenAssert)"

definition set_row :: "matrix \<Rightarrow> nat \<Rightarrow> matrix \<Rightarrow> error + matrix" where
  \<comment> \<open>\<^verbatim>\<open>m.row(r) = v\<close>\<close>
  "set_row m r v =
     (if r < nrows m \<and> nrows v = 1 \<and> ncols v = ncols m
      then Inr (m\<lparr>cell := (\<lambda>a b. if a = r \<and> b < ncols m then cell v 0 b else cell m a b)\<rparr>)
      else Inl EigenAssert)"

definition set_col :: "matrix \<Rightarrow> nat \<Rightarrow> matrix \<Rightarrow> error + matrix" where
  \<comment> \<open>\<^verbatim>\<open>m.col(c) = v\<close>\<close>
  "set_col m c v =
     (if c < ncols m \<and> ncols v = 1 \<and> nrows v = nrows m
      then Inr (m\<lparr>cell := (\<lambda>a b. if b = c \<and> a < nrows m then cell v a 0 else cell m a b)\<rparr>)
      else Inl EigenAssert)"

definition scale_row :: "matrix \<Rightarrow> nat \<Rightarrow> real \<Rightarrow> error + matrix" where
  \<comment> \<open>\<^verbatim>\<open>m.row(r) *= x\<close>\<close>
  "scale_row m r x =
     (if r < nrows m
      then Inr (m\<lparr>cell := (\<lambda>a b. if a = r \<and> b < ncols m then cell m a b * x else cell m a b)\<rparr>)
      else Inl EigenAssert)"

text \<open>
  The determinant of the leading \<open>n \<times> n\<close> block of \<open>a\<close>, by expansion along the first row:
  \<open>minor a r c\<close> is \<open>a\<close> without row \<open>r\<close> and column \<open>c\<close>.
\<close>

definition skip :: "nat \<Rightarrow> nat \<Rightarrow> nat" where
  "skip k x = (if x < k then x else Suc x)"

definition minor :: "(nat \<Rightarrow> nat \<Rightarrow> real) \<Rightarrow> nat \<Rightarrow> nat \<Rightarrow> nat \<Rightarrow> nat \<Rightarrow> real" where
  "minor a r c = (\<lambda>i j. a (skip r i) (skip c j))"

fun det :: "nat \<Rightarrow> (nat \<Rightarrow> nat \<Rightarrow> real) \<Rightarrow> real" where
  "det 0 a = 1"
| "det (Suc n) a = (\<Sum>j<Suc n. (- 1) ^ j * a 0 j * det n (minor a 0 j))"

definition determinant :: "matrix \<Rightarrow> error + real" where
  \<comment> \<open>\<^verbatim>\<open>m.determinant()\<close>, the determinant of a square matrix\<close>
  "determinant m = (if nrows m = ncols m then Inr (det (nrows m) (cell m)) else Inl EigenAssert)"

section \<open>Point\<close>

text \<open>A point is its coordinate vector \<^verbatim>\<open>coords\<close>.\<close>

type_synonym Point = "real list"

definition prepare :: "nat \<Rightarrow> Point \<Rightarrow> Point" where
  \<comment> \<open>\<^verbatim>\<open>prepare(n)\<close> pushes \<open>n\<close> zeros\<close>
  "prepare n p = p @ replicate n 0"

definition setValue :: "real \<Rightarrow> nat \<Rightarrow> Point \<Rightarrow> error + Point" where
  "setValue v pos p = (if pos < length p then Inr (p[pos := v]) else Inl VectorIndex)"

definition index :: "Point \<Rightarrow> nat \<Rightarrow> error + real" where
  \<comment> \<open>\<^verbatim>\<open>operator[]\<close>, of a point and of a \<^verbatim>\<open>std::vector\<close>\<close>
  "index p i = (if i < length p then Inr (p ! i) else Inl VectorIndex)"

definition minus_pt :: "Point \<Rightarrow> Point \<Rightarrow> error + Point" where
  \<comment> \<open>\<^verbatim>\<open>operator-\<close>: the result has the size of \<open>other\<close>\<close>
  "minus_pt this other =
     for_loop (length other)
       (\<lambda>i p. and_then (index this i) (\<lambda>a. and_then (index other i) (\<lambda>b. setValue (a - b) i p)))
       (prepare (length other) [])"

definition distanceTo :: "Point \<Rightarrow> Point \<Rightarrow> error + real" where
  "distanceTo this other =
     and_then (minus_pt this other) (\<lambda>diff.
     and_then (for_loop (length other)
         (\<lambda>i sqs. and_then (index diff i) (\<lambda>d. let sq = d * d in Inr (sqs @ [sq]))) []) (\<lambda>sqs.
     and_then (for_loop (length sqs)
         (\<lambda>j sum. and_then (index sqs j) (\<lambda>v. Inr (sum + v))) 0) (\<lambda>sum.
     Inr (sqrt sum))))"

section \<open>OptimalPointMatcher\<close>

text \<open>
  Two things come from outside the repository and are parameters of the model: \<open>u\<close>, the
  contents of freshly allocated, uninitialised matrix memory, and \<open>svd\<close>, the singular value
  decomposition, which returns the factors \<^verbatim>\<open>matrixU()\<close> and \<^verbatim>\<open>matrixV()\<close>.
\<close>

definition getCentroid :: "(nat \<Rightarrow> nat \<Rightarrow> real) \<Rightarrow> matrix \<Rightarrow> error + matrix" where
  "getCentroid u points =
     (let columns = ncols points; rows = nrows points; centroid = uninit columns 1 u in
      for_loop columns
        (\<lambda>i centroid.
           and_then (col_sum points i) (\<lambda>sum.
           and_then (fdiv sum rows) (\<lambda>cent.
           set_coeff centroid i 0 cent)))
        centroid)"

definition solveForOptimalTranslation ::
    "(nat \<Rightarrow> nat \<Rightarrow> real) \<Rightarrow> matrix \<Rightarrow> matrix \<Rightarrow> matrix \<Rightarrow> error + matrix" where
  "solveForOptimalTranslation u ref target optimalRotation =
     and_then (getCentroid u target) (\<lambda>centroidOne.
     and_then (getCentroid u ref) (\<lambda>centroidTwo.
     and_then (mat_mul (scale_right optimalRotation (- 1)) centroidOne) (\<lambda>p.
     mat_add p centroidTwo)))"

definition solveForOptimalRotation ::
    "(matrix \<Rightarrow> matrix \<times> matrix) \<Rightarrow> (nat \<Rightarrow> nat \<Rightarrow> real) \<Rightarrow> matrix \<Rightarrow> matrix \<Rightarrow> error + matrix" where
  "solveForOptimalRotation svd u ref target =
     and_then (getCentroid u target) (\<lambda>centroidOne.
     and_then (getCentroid u ref) (\<lambda>centroidTwo.
     let rows = nrows ref in
     and_then (for_loop rows
         (\<lambda>r (ref, target).
            and_then (get_row ref r) (\<lambda>rr.
            and_then (mat_sub rr (transpose_m centroidTwo)) (\<lambda>rv.
            and_then (set_row ref r rv) (\<lambda>ref.
            and_then (get_row target r) (\<lambda>tr.
            and_then (mat_sub tr (transpose_m centroidOne)) (\<lambda>tv.
            and_then (set_row target r tv) (\<lambda>target.
            Inr (ref, target))))))))
         (ref, target)) (\<lambda>(ref, target).
     and_then (mat_mul (transpose_m target) ref) (\<lambda>cov.
     let (matrixU, matrixV) = svd cov in
     and_then (mat_mul matrixV (transpose_m matrixU)) (\<lambda>rotation.
     and_then (determinant rotation) (\<lambda>d.
     if d < 0
     then (if nrows rotation = 0 then Inl EigenAssert
           else scale_row rotation (nrows rotation - 1) (- 1))
     else Inr rotation))))))"

definition RMSE :: "matrix \<Rightarrow> matrix \<Rightarrow> error + real \<times> console_line list" where
  "RMSE dataOne dataTwo =
     (if msize dataOne \<noteq> msize dataTwo then Inr (0, [MismatchLine])
      else
        and_then (mat_sub dataOne dataTwo) (\<lambda>result.
        and_then (for_loop (nrows result)
            (\<lambda>i squares. for_loop (ncols result)
               (\<lambda>j squares.
                  and_then (coeff result i j) (\<lambda>val.
                  let newVal = val * val in set_coeff squares i j newVal))
               squares)
            (Zero (nrows result) (ncols result))) (\<lambda>squares.
        and_then (for_loop (nrows squares)
            (\<lambda>r sumSqrs. and_then (row_sum squares r) (\<lambda>sum. Inr (sumSqrs @ [sum]))) []) (\<lambda>sumSqrs.
        and_then (for_loop (length sumSqrs)
            (\<lambda>q sqrts. and_then (vec_at sumSqrs q) (\<lambda>v. Inr (sqrts @ [sqrt v]))) []) (\<lambda>sqrts.
        and_then (for_loop (length sqrts)
            (\<lambda>x rmse. and_then (vec_at sqrts x) (\<lambda>v. Inr (rmse + v))) 0) (\<lambda>rmse.
        Inr (rmse, [])))))))"

definition applyTransformation ::
    "(nat \<Rightarrow> nat \<Rightarrow> real) \<Rightarrow> matrix \<Rightarrow> matrix \<Rightarrow> matrix \<Rightarrow> error + matrix" where
  "applyTransformation u data translation rotation =
     (let trans = uninit (nrows data) (ncols data) u;
          ones = Ones (nrows data) 1 in
      and_then
        (if nrows translation \<noteq> nrows data \<or> ncols translation \<noteq> ncols data then
           if ncols translation = 1 then
             for_loop (ncols data)
               (\<lambda>i trans. and_then (coeff translation i 0) (\<lambda>t. set_col trans i (scale_left t ones)))
               trans
           else if nrows translation = 1 then
             for_loop (ncols data)
               (\<lambda>i trans. and_then (coeff translation 0 i) (\<lambda>t. set_col trans i (scale_left t ones)))
               trans
           else Inr trans
         else Inr trans) (\<lambda>trans.
      and_then (mat_add data trans) (\<lambda>moved.
      mat_mul moved rotation)))"

section \<open>ICP\<close>

datatype PointType = TWO_D | THREE_D

record ICPSettings =
  pointType :: PointType
  maxIterations :: int

record ICP =
  mRef :: matrix
  mTarget :: matrix
  curRef :: matrix
  solvedTransform :: matrix
  solvedRotation :: matrix
  transform :: matrix
  lastTransform :: matrix
  rotation :: matrix
  lastRotation :: matrix
  refPoints :: "Point list"
  tarPoints :: "Point list"
  closestPoints :: "Point list"
  iterations :: int

definition empty_matrix :: matrix where
  \<comment> \<open>a default-constructed \<^verbatim>\<open>Eigen::MatrixXd\<close>\<close>
  "empty_matrix = fill 0 0 (\<lambda>i j. 0)"

definition new_ICP :: "matrix \<Rightarrow> matrix \<Rightarrow> ICPSettings \<Rightarrow> ICP" where
  \<comment> \<open>the constructor\<close>
  "new_ICP reference target sett =
     \<lparr>mRef = reference, mTarget = target, curRef = reference,
      solvedTransform = empty_matrix, solvedRotation = empty_matrix,
      transform = empty_matrix, lastTransform = empty_matrix,
      rotation = empty_matrix, lastRotation = empty_matrix,
      refPoints = [], tarPoints = [], closestPoints = [],
      iterations = maxIterations sett\<rparr>"

definition match :: "(nat \<Rightarrow> nat \<Rightarrow> real) \<Rightarrow> ICP \<Rightarrow> error + matrix \<times> ICP" where
  \<comment> \<open>the three loops write the point buffers only, which are the state threaded through them\<close>
  "match u s =
     (let rows = nrows (mRef s); cols = ncols (mRef s) in
      and_then (for_loop rows
          (\<lambda>r (tarPoints, refPoints).
             let ref = prepare cols []; tar = prepare cols [] in
             and_then (for_loop cols
                 (\<lambda>c (ref, tar).
                    and_then (coeff (curRef s) r c) (\<lambda>x.
                    and_then (setValue x c ref) (\<lambda>ref.
                    and_then (coeff (mTarget s) r c) (\<lambda>y.
                    and_then (setValue y c tar) (\<lambda>tar.
                    Inr (ref, tar))))))
                 (ref, tar)) (\<lambda>(ref, tar).
             Inr (tarPoints @ [tar], refPoints @ [ref])))
          (tarPoints s, refPoints s)) (\<lambda>(tarPoints, refPoints).
      and_then (for_loop (length refPoints)
          (\<lambda>i closestPoints.
             let bestDistance = 1000000 in
             and_then (vec_at tarPoints i) (\<lambda>tar.
             and_then (vec_at refPoints 0) (\<lambda>first.
             let best = prepare (length first) [] in
             and_then (for_loop (length tarPoints)
                 (\<lambda>j (bestDistance, best).
                    and_then (vec_at refPoints j) (\<lambda>ref.
                    and_then (distanceTo tar ref) (\<lambda>dist.
                    if dist < bestDistance then Inr (dist, ref) else Inr (bestDistance, best))))
                 (bestDistance, best)) (\<lambda>(bestDistance, best).
             Inr (closestPoints @ [best])))))
          (closestPoints s)) (\<lambda>closestPoints.
      and_then (vec_at closestPoints 0) (\<lambda>first.
      let closest = uninit (length closestPoints) (length first) u in
      and_then (for_loop (length closestPoints)
          (\<lambda>x closest.
             and_then (vec_at closestPoints x) (\<lambda>p.
             for_loop (length p)
               (\<lambda>y closest. and_then (index p y) (\<lambda>v. set_coeff closest x y v))
               closest))
          closest) (\<lambda>closest.
      Inr (closest,
           s\<lparr>tarPoints := tarPoints, refPoints := refPoints, closestPoints := closestPoints\<rparr>))))))"

definition rotMatrixToDegrees :: "matrix \<Rightarrow> error + real" where
  "rotMatrixToDegrees rot =
     and_then (coeff rot 1 0) (\<lambda>x.
     if - 1 \<le> x \<and> x \<le> 1 then Inr (arcsin x * 180 / PI) else Inl NotFinite)"

definition angleToRotMatrix :: "(nat \<Rightarrow> nat \<Rightarrow> real) \<Rightarrow> real \<Rightarrow> nat \<Rightarrow> error + matrix" where
  "angleToRotMatrix u angle n =
     (let rot = uninit n n u in
      and_then (set_coeff rot 0 0 (cos (angle * PI / 180))) (\<lambda>rot.
      and_then (set_coeff rot 0 1 (- sin (angle * PI / 180))) (\<lambda>rot.
      and_then (set_coeff rot 1 0 (sin (angle * PI / 180))) (\<lambda>rot.
      set_coeff rot 1 1 (cos (angle * PI / 180))))))"

definition solve_iteration ::
    "(matrix \<Rightarrow> matrix \<times> matrix) \<Rightarrow> (nat \<Rightarrow> nat \<Rightarrow> real) \<Rightarrow> ICP \<Rightarrow> error + ICP \<times> console_line list" where
  \<comment> \<open>one round of the \<^verbatim>\<open>while\<close> loop of \<^verbatim>\<open>solve\<close>\<close>
  "solve_iteration svd u s =
     (let s = s\<lparr>closestPoints := [], tarPoints := [], refPoints := []\<rparr>;
          s = s\<lparr>lastTransform := transform s\<rparr>;
          s = s\<lparr>lastRotation := rotation s\<rparr> in
      and_then (match u s) (\<lambda>(closest, s).
      and_then (solveForOptimalRotation svd u closest (mTarget s)) (\<lambda>newRot.
      and_then (solveForOptimalTranslation u closest (mTarget s) newRot) (\<lambda>newTrans.
      and_then (rotMatrixToDegrees (lastRotation s)) (\<lambda>lastAngle.
      and_then (rotMatrixToDegrees newRot) (\<lambda>angle.
      let newAngle = lastAngle + angle in
      and_then (angleToRotMatrix u newAngle (nrows (lastRotation s))) (\<lambda>rot.
      let s = s\<lparr>rotation := rot\<rparr>;
          s = s\<lparr>transform := newTrans\<rparr> in
      and_then (applyTransformation u (curRef s) (transform s) (rotation s)) (\<lambda>newRef.
      and_then (RMSE (mTarget s) newRef) (\<lambda>(err, printed).
      let s = s\<lparr>curRef := newRef\<rparr>;
          s = s\<lparr>iterations := iterations s - 1\<rparr> in
      Inr (s, printed @ [ErrorLine err]))))))))))"

function solve_loop ::
    "(matrix \<Rightarrow> matrix \<times> matrix) \<Rightarrow> (nat \<Rightarrow> nat \<Rightarrow> real) \<Rightarrow> ICP \<Rightarrow> error + ICP \<times> console_line list" where
  "solve_loop svd u s =
     (if 0 < iterations s then
        (case solve_iteration svd u s of
           Inl e \<Rightarrow> Inl e
         | Inr (s', printed) \<Rightarrow>
             (case solve_loop svd u s' of
                Inl e \<Rightarrow> Inl e
              | Inr (s'', printed') \<Rightarrow> Inr (s'', printed @ printed')))
      else Inr (s, []))"
  by pat_completeness auto
termination
proof (relation "measure (\<lambda>(svd, u, s). nat (iterations s))")
  show "wf (measure (\<lambda>(svd, u, s). nat (iterations s)))"
    by simp
next
  fix svd :: "matrix \<Rightarrow> matrix \<times> matrix" and u :: "nat \<Rightarrow> nat \<Rightarrow> real"
    and s :: ICP and x2 :: "ICP \<times> console_line list" and s' :: ICP and printed :: "console_line list"
  assume pos: "0 < iterations s"
    and it: "solve_iteration svd u s = Inr x2" and x2: "(s', printed) = x2"
  from it x2 have "iterations s' = iterations s - 1"
    by (auto simp: solve_iteration_def match_def and_then_def Let_def
        split: sum.splits prod.splits if_splits)
  with pos show "((svd, u, s'), (svd, u, s)) \<in> measure (\<lambda>(svd, u, s). nat (iterations s))"
    by simp
qed

definition solve ::
    "(matrix \<Rightarrow> matrix \<times> matrix) \<Rightarrow> (nat \<Rightarrow> nat \<Rightarrow> real) \<Rightarrow> ICP \<Rightarrow> error + ICP \<times> console_line list" where
  "solve svd u s =
     (let s = s\<lparr>rotation := Identity (ncols (mRef s)) (ncols (mRef s))\<rparr>;
          s = s\<lparr>transform := Zero (ncols (mRef s)) 1\<rparr> in
      solve_loop svd u s)"

definition getBestTranslation :: "ICP \<Rightarrow> matrix" where
  "getBestTranslation s = transform s"

definition getBestRotation :: "ICP \<Rightarrow> matrix" where
  "getBestRotation s = rotation s"

section \<open>Matrices written out row by row\<close>

text \<open>The concrete matrices of the examples: \<open>from_rows r c xs\<close> has its cell \<open>(i, j)\<close> from \<open>xs ! i ! j\<close>.\<close>

definition from_rows :: "nat \<Rightarrow> nat \<Rightarrow> real list list \<Rightarrow> matrix" where
  "from_rows r c xs = fill r c (\<lambda>i j. xs ! i ! j)"

section \<open>Notions the properties are stated with\<close>

text \<open>
  Row \<open>r\<close> of a matrix as a point, the Euclidean distance, the rows of a matrix as the list of
  points that \<open>match\<close> builds, and the outcome of its linear search: the first point of \<open>refs\<close>
  at the least distance from \<open>tar\<close>, when that distance is below the initial best distance.
\<close>

definition row_of :: "matrix \<Rightarrow> nat \<Rightarrow> Point" where
  "row_of m r = map (cell m r) [0..<ncols m]"

definition euclid :: "Point \<Rightarrow> Point \<Rightarrow> real" where
  "euclid p q = sqrt (\<Sum>i<length q. (p ! i - q ! i)\<^sup>2)"

definition nearer :: "Point \<Rightarrow> real \<times> Point \<Rightarrow> Point \<Rightarrow> real \<times> Point" where
  "nearer tar = (\<lambda>(bestDistance, best) ref.
     if euclid tar ref < bestDistance then (euclid tar ref, ref) else (bestDistance, best))"

definition points_of :: "matrix \<Rightarrow> nat \<Rightarrow> nat \<Rightarrow> Point list" where
  "points_of m rows cols = map (\<lambda>r. map (cell m r) [0..<cols]) [0..<rows]"

definition best_of :: "Point \<Rightarrow> Point list \<Rightarrow> nat \<Rightarrow> Point" where
  "best_of tar refs cols = snd (foldl (nearer tar) (1000000, replicate cols 0) refs)"

text \<open>A reference of one point two million units away from the one target point.\<close>

definition far_apart :: ICP where
  "far_apart = new_ICP (from_rows 1 2 [[2000000, 0]]) (from_rows 1 2 [[0, 0]])
     \<lparr>pointType = TWO_D, maxIterations = 1\<rparr>"

text \<open>A reference of one point five units away from the one target point.\<close>

definition near_by :: ICP where
  "near_by = new_ICP (from_rows 1 2 [[3, 4]]) (from_rows 1 2 [[0, 0]])
     \<lparr>pointType = TWO_D, maxIterations = 1\<rparr>"

text \<open>
  A computation that does not end with the exception \<^verbatim>\<open>std::out_of_range\<close>, which the
  bounds-checked \<^verbatim>\<open>std::vector::at\<close> throws.
\<close>

definition no_throw :: "error + 'a \<Rightarrow> bool" where
  "no_throw r \<longleftrightarrow> r \<noteq> Inl OutOfRange"

text \<open>
  For the algebra of the determinant: a matrix with one row replaced, and the exchange of two
  neighbouring indices.
\<close>

definition setrow :: "(nat \<Rightarrow> nat \<Rightarrow> real) \<Rightarrow> nat \<Rightarrow> (nat \<Rightarrow> real) \<Rightarrow> nat \<Rightarrow> nat \<Rightarrow> real" where
  "setrow a r v = (\<lambda>i j. if i = r then v j else a i j)"

definition swap_adj :: "nat \<Rightarrow> nat \<Rightarrow> nat" where
  "swap_adj r i = (if i = r then Suc r else if i = Suc r then r else i)"

text \<open>
  What is assumed of the decomposition: its factors \<open>U\<close> and \<open>V\<close> are square of the sizes of the
  decomposed matrix, with orthonormal rows and columns. \<open>product_VUt\<close> is the candidate rotation
  \<open>V * U\<^sup>T\<close> and \<open>negate_last_row\<close> the reflection correction.
\<close>

definition orthogonal :: "nat \<Rightarrow> matrix \<Rightarrow> bool" where
  "orthogonal n q \<longleftrightarrow>
     nrows q = n \<and> ncols q = n \<and>
     (\<forall>i<n. \<forall>j<n. (\<Sum>k<n. cell q i k * cell q j k) = (if i = j then 1 else 0)) \<and>
     (\<forall>i<n. \<forall>j<n. (\<Sum>k<n. cell q k i * cell q k j) = (if i = j then 1 else 0))"

definition svd_orthogonal :: "(matrix \<Rightarrow> matrix \<times> matrix) \<Rightarrow> bool" where
  "svd_orthogonal svd \<longleftrightarrow>
     (\<forall>m. orthogonal (nrows m) (fst (svd m)) \<and> orthogonal (ncols m) (snd (svd m)))"

definition product_VUt :: "nat \<Rightarrow> matrix \<Rightarrow> matrix \<Rightarrow> matrix" where
  "product_VUt n U V = fill n n (\<lambda>i j. \<Sum>k<n. cell V i k * cell U j k)"

definition negate_last_row :: "matrix \<Rightarrow> matrix" where
  "negate_last_row m =
     m\<lparr>cell := (\<lambda>a b. if a = nrows m - 1 \<and> b < ncols m then cell m a b * (- 1) else cell m a b)\<rparr>"

text \<open>
  The matrix that \<open>solveForOptimalRotation\<close> decomposes: the covariance of the target and the
  reference, each centred on the mean of its columns.
\<close>

definition column_mean :: "matrix \<Rightarrow> nat \<Rightarrow> real" where
  "column_mean m j = (\<Sum>r<nrows m. cell m r j) / real (nrows m)"

definition covariance :: "matrix \<Rightarrow> matrix \<Rightarrow> matrix" where
  "covariance ref target =
     fill (ncols target) (ncols ref)
       (\<lambda>i j. \<Sum>k<nrows ref. (cell target k i - column_mean target i)
                               * (cell ref k j - column_mean ref j))"

text \<open>
  The state in which a round of \<open>solve\<close> starts: a reference of at least one point in at least two
  dimensions, target and working reference of its shape, and an accumulated rotation of that
  dimension whose entry \<open>(1, 0)\<close> is a sine. \<open>rounds k\<close> runs the loop body \<open>k\<close> times.
\<close>

definition round_ready :: "ICP \<Rightarrow> bool" where
  "round_ready s \<longleftrightarrow>
     0 < nrows (mRef s) \<and> 2 \<le> ncols (mRef s) \<and>
     nrows (mTarget s) = nrows (mRef s) \<and> ncols (mTarget s) = ncols (mRef s) \<and>
     nrows (curRef s) = nrows (mRef s) \<and> ncols (curRef s) = ncols (mRef s) \<and>
     nrows (rotation s) = ncols (mRef s) \<and> ncols (rotation s) = ncols (mRef s) \<and>
     - 1 \<le> cell (rotation s) 1 0 \<and> cell (rotation s) 1 0 \<le> 1"

fun rounds ::
    "nat \<Rightarrow> (matrix \<Rightarrow> matrix \<times> matrix) \<Rightarrow> (nat \<Rightarrow> nat \<Rightarrow> real) \<Rightarrow> ICP \<Rightarrow> error + ICP \<times> console_line list" where
  "rounds 0 svd u s = Inr (s, [])"
| "rounds (Suc k) svd u s =
     (case solve_iteration svd u s of
        Inl e \<Rightarrow> Inl e
      | Inr (s', printed) \<Rightarrow>
          (case rounds k svd u s' of
             Inl e \<Rightarrow> Inl e
           | Inr (s'', printed') \<Rightarrow> Inr (s'', printed @ printed')))"

text \<open>
  The unit square matched onto itself, five rounds: the covariance of the centred squares is the
  identity, whose factors are identities.
\<close>

definition identity_factors :: "matrix \<Rightarrow> matrix \<times> matrix" where
  "identity_factors m = (Identity (nrows m) (nrows m), Identity (ncols m) (ncols m))"

definition unit_square :: matrix where
  "unit_square = from_rows 4 2 [[0, 0], [1, 0], [1, 1], [0, 1]]"

definition square_settings :: ICPSettings where
  "square_settings = \<lparr>pointType = TWO_D, maxIterations = 5\<rparr>"


section \<open>Sequencing and counted loops\<close>

lemma and_then_Inr [simp]: "and_then (Inr x) f = f x"
  by (simp add: and_then_def)

lemma and_then_Inl [simp]: "and_then (Inl e) f = Inl e"
  by (simp add: and_then_def)

lemma and_then_eq_Inr: "and_then m f = Inr y \<longleftrightarrow> (\<exists>x. m = Inr x \<and> f x = Inr y)"
  by (cases m) simp_all

lemma for_each_snoc: "for_each (xs @ [i]) body s = and_then (for_each xs body s) (body i)"
proof (induction xs arbitrary: s)
  case Nil
  show ?case by (cases "body i s") simp_all
next
  case (Cons x xs)
  show ?case by (cases "body x s") (simp_all add: Cons.IH)
qed

lemma for_loop_0 [simp]: "for_loop 0 body s = Inr s"
  by (simp add: for_loop_def)

lemma for_loop_Suc: "for_loop (Suc n) body s = and_then (for_loop n body s) (body n)"
  by (simp add: for_loop_def for_each_snoc)

lemma for_loop_invariant:
  assumes "P 0 s"
    and "\<And>i t. i < n \<Longrightarrow> P i t \<Longrightarrow> \<exists>t'. body i t = Inr t' \<and> P (Suc i) t'"
  shows "\<exists>t. for_loop n body s = Inr t \<and> P n t"
  using assms(2)
proof (induction n)
  case 0
  then show ?case using assms(1) by simp
next
  case (Suc n)
  then obtain t where t: "for_loop n body s = Inr t" "P n t"
    by (metis less_Suc_eq)
  from Suc.prems [of n t] t obtain t' where "body n t = Inr t'" "P (Suc n) t'"
    by auto
  with t show ?case by (simp add: for_loop_Suc)
qed

lemma for_loop_push:
  assumes "\<And>i xs. i < n \<Longrightarrow> body i xs = Inr (xs @ [f i])"
  shows "for_loop n body [] = Inr (map f [0..<n])"
  using assms
proof (induction n)
  case 0
  show ?case by simp
next
  case (Suc n)
  then show ?case by (simp add: for_loop_Suc)
qed

lemma for_loop_accumulate:
  assumes "\<And>i (acc::real). i < n \<Longrightarrow> body i acc = Inr (acc + f i)"
  shows "for_loop n body a = Inr (a + (\<Sum>i<n. f i))"
  using assms
proof (induction n)
  case 0
  show ?case by simp
next
  case (Suc n)
  then show ?case by (simp add: for_loop_Suc add.assoc)
qed

lemma for_loop_push_from:
  assumes "\<And>i xs. i < n \<Longrightarrow> body i xs = Inr (xs @ [f i])"
  shows "for_loop n body xs0 = Inr (xs0 @ map f [0..<n])"
  using assms
proof (induction n)
  case 0
  show ?case by simp
next
  case (Suc n)
  then show ?case by (simp add: for_loop_Suc)
qed

lemma for_loop_push2_from:
  assumes "\<And>i xs ys. i < n \<Longrightarrow> body i (xs, ys) = Inr (xs @ [f i], ys @ [g i])"
  shows "for_loop n body (xs0, ys0) = Inr (xs0 @ map f [0..<n], ys0 @ map g [0..<n])"
  using assms
proof (induction n)
  case 0
  show ?case by simp
next
  case (Suc n)
  then show ?case by (simp add: for_loop_Suc)
qed

section \<open>Cells of the matrices built by the library operations\<close>

lemma fill_sel [simp]:
  "nrows (fill r c f) = r" "ncols (fill r c f) = c"
  "cell (fill r c f) i j = (if i < r \<and> j < c then f i j else 0)"
  by (simp_all add: fill_def)

lemma matrix_eqI:
  fixes a b :: matrix
  assumes "nrows a = nrows b" "ncols a = ncols b" "\<And>i j. cell a i j = cell b i j"
  shows "a = b"
  using assms by (intro matrix.equality ext) simp_all

lemma from_rows_sel [simp]:
  "nrows (from_rows r c xs) = r" "ncols (from_rows r c xs) = c"
  "cell (from_rows r c xs) i j = (if i < r \<and> j < c then xs ! i ! j else 0)"
  by (simp_all add: from_rows_def)

lemma matrix_neqI:
  fixes a b :: matrix
  shows "cell a i j \<noteq> cell b i j \<Longrightarrow> a \<noteq> b"
  by auto

section \<open>RMSE\<close>

lemma RMSE_inner_loop:
  assumes "i < nrows sq" "ncols sq = c" "nrows result = nrows sq" "ncols result = c"
  shows "for_loop c
           (\<lambda>j squares. and_then (coeff result i j) (\<lambda>val. set_coeff squares i j (val * val))) sq
         = Inr (sq\<lparr>cell := (\<lambda>a b. if a = i \<and> b < c
                                 then cell result i b * cell result i b else cell sq a b)\<rparr>)"
proof -
  let ?P = "\<lambda>j t. t = sq\<lparr>cell := (\<lambda>a b. if a = i \<and> b < j
                                 then cell result i b * cell result i b else cell sq a b)\<rparr>"
  let ?body = "\<lambda>j squares. and_then (coeff result i j) (\<lambda>val. set_coeff squares i j (val * val))"
  have "\<exists>t. for_loop c ?body sq = Inr t \<and> ?P c t"
  proof (rule for_loop_invariant [where P = ?P])
    show "?P 0 sq" by simp
  next
    fix j t
    assume j: "j < c" and t: "?P j t"
    have "?body j t = Inr (sq\<lparr>cell := (\<lambda>a b. if a = i \<and> b < Suc j
                                 then cell result i b * cell result i b else cell sq a b)\<rparr>)"
      using j t assms
      by (auto simp: coeff_def set_coeff_def less_Suc_eq intro!: matrix_eqI)
    then show "\<exists>t'. ?body j t = Inr t' \<and> ?P (Suc j) t'" by simp
  qed
  then show ?thesis by simp
qed

lemma RMSE_squares_loop:
  assumes "nrows result = r" "ncols result = c"
  shows "for_loop r
           (\<lambda>i. for_loop c
               (\<lambda>j squares. and_then (coeff result i j) (\<lambda>val. set_coeff squares i j (val * val))))
           (Zero r c)
         = Inr (fill r c (\<lambda>a b. cell result a b * cell result a b))"
proof -
  let ?P = "\<lambda>i t. t = fill r c (\<lambda>a b. if a < i then cell result a b * cell result a b else 0)"
  let ?body = "\<lambda>i. for_loop c
               (\<lambda>j squares. and_then (coeff result i j) (\<lambda>val. set_coeff squares i j (val * val)))"
  have "\<exists>t. for_loop r ?body (Zero r c) = Inr t \<and> ?P r t"
  proof (rule for_loop_invariant [where P = ?P])
    show "?P 0 (Zero r c)" by (simp add: Zero_def)
  next
    fix i t
    assume i: "i < r" and t: "?P i t"
    have "?body i t = Inr (t\<lparr>cell := (\<lambda>a b. if a = i \<and> b < c
                                 then cell result i b * cell result i b else cell t a b)\<rparr>)"
      using RMSE_inner_loop [of i t c result] i t assms by simp
    moreover have "t\<lparr>cell := (\<lambda>a b. if a = i \<and> b < c
                                 then cell result i b * cell result i b else cell t a b)\<rparr>
        = fill r c (\<lambda>a b. if a < Suc i then cell result a b * cell result a b else 0)"
      using i t by (auto intro!: matrix_eqI simp: less_Suc_eq)
    ultimately show "\<exists>t'. ?body i t = Inr t' \<and> ?P (Suc i) t'" by simp
  qed
  then show ?thesis by (auto intro!: matrix_eqI)
qed

lemma RMSE_same_shape:
  assumes "nrows a = nrows b" "ncols a = ncols b"
  shows "RMSE a b
         = Inr (\<Sum>i<nrows a. sqrt (\<Sum>j<ncols a. (cell a i j - cell b i j)\<^sup>2), [])"
proof -
  define r c where "r = nrows a" and "c = ncols a"
  define result where "result = fill r c (\<lambda>i j. cell a i j - cell b i j)"
  define squares where "squares = fill r c (\<lambda>i j. cell result i j * cell result i j)"
  define rowsq where "rowsq = (\<lambda>i. \<Sum>j<c. (cell a i j - cell b i j)\<^sup>2)"
  have dims: "nrows result = r" "ncols result = c" "nrows squares = r" "ncols squares = c"
    by (simp_all add: result_def squares_def)
  have sub: "mat_sub a b = Inr result"
    using assms by (simp add: mat_sub_def result_def r_def c_def)
  have sq: "for_loop r
           (\<lambda>i. for_loop c
               (\<lambda>j squares. and_then (coeff result i j) (\<lambda>val. set_coeff squares i j (val * val))))
           (Zero r c) = Inr squares"
    unfolding squares_def by (rule RMSE_squares_loop) (fact dims)+
  have sums: "for_loop r
            (\<lambda>r sumSqrs. and_then (row_sum squares r) (\<lambda>sum. Inr (sumSqrs @ [sum]))) []
          = Inr (map rowsq [0..<r])"
    by (rule for_loop_push)
      (simp add: row_sum_def dims squares_def result_def rowsq_def power2_eq_square)
  have roots: "for_loop r
            (\<lambda>q sqrts. and_then (vec_at (map rowsq [0..<r]) q) (\<lambda>v. Inr (sqrts @ [sqrt v]))) []
          = Inr (map (\<lambda>i. sqrt (rowsq i)) [0..<r])"
    by (rule for_loop_push) (simp add: vec_at_def)
  have total: "for_loop r
            (\<lambda>x rmse. and_then (vec_at (map (\<lambda>i. sqrt (rowsq i)) [0..<r]) x) (\<lambda>v. Inr (rmse + v))) 0
          = Inr (0 + (\<Sum>i<r. sqrt (rowsq i)))"
    by (rule for_loop_accumulate) (simp add: vec_at_def)
  have "RMSE a b = Inr (\<Sum>i<r. sqrt (rowsq i), [])"
    unfolding RMSE_def
    using assms by (simp add: msize_def sub dims sq sums roots total)
  then show ?thesis
    by (simp add: r_def c_def rowsq_def)
qed

text \<open>
  Claim C5. For matrices \<open>a\<close> and \<open>b\<close> of the same shape, \<open>RMSE a b\<close> returns the sum, over the
  rows, of the square root of the sum of the squared entries of that row of \<open>a - b\<close>: the sum of
  the Euclidean norms of the row residuals, not a root mean square. Nothing is printed.
\<close>

theorem RMSE_sum_of_row_norms:
  assumes "nrows a = nrows b" and "ncols a = ncols b"
  shows "RMSE a b
         = Inr (\<Sum>i<nrows a. sqrt (\<Sum>j<ncols a. (cell a i j - cell b i j)\<^sup>2), [])"
  using assms by (rule RMSE_same_shape)

theorem RMSE_sum_of_row_norms_witness:
  "RMSE (from_rows 2 2 [[3, 4], [6, 8]]) (from_rows 2 2 [[0, 0], [0, 0]]) = Inr (15, [])"
  using RMSE_sum_of_row_norms [of "from_rows 2 2 [[3, 4], [6, 8]]" "from_rows 2 2 [[0, 0], [0, 0]]"]
  by (simp add: lessThan_Suc numeral_2_eq_2)

section \<open>applyTransformation\<close>

lemma broadcast_loop:
  assumes "\<And>i. i < c \<Longrightarrow> coeff_i i = Inr (v i)"
  shows "for_loop c
           (\<lambda>i trans. and_then (coeff_i i) (\<lambda>t. set_col trans i (scale_left t (Ones r 1))))
           (uninit r c u)
         = Inr (fill r c (\<lambda>a b. v b))"
proof -
  let ?P = "\<lambda>i t. t = fill r c (\<lambda>a b. if b < i then v b else u a b)"
  let ?body = "\<lambda>i trans. and_then (coeff_i i) (\<lambda>t. set_col trans i (scale_left t (Ones r 1)))"
  have "\<exists>t. for_loop c ?body (uninit r c u) = Inr t \<and> ?P c t"
  proof (rule for_loop_invariant [where P = ?P])
    show "?P 0 (uninit r c u)" by (simp add: uninit_def)
  next
    fix i t
    assume i: "i < c" and t: "?P i t"
    have "?body i t = Inr (fill r c (\<lambda>a b. if b < Suc i then v b else u a b))"
      using i t assms [of i]
      by (auto simp: set_col_def scale_left_def Ones_def less_Suc_eq intro!: matrix_eqI)
    then show "\<exists>t'. ?body i t = Inr t' \<and> ?P (Suc i) t'" by simp
  qed
  then show ?thesis by (auto intro!: matrix_eqI)
qed

lemma applyTransformation_column_vector:
  assumes "nrows translation \<noteq> nrows data \<or> ncols translation \<noteq> ncols data"
    and "ncols translation = 1" and "ncols data \<le> nrows translation"
  shows "applyTransformation u data translation rot
         = and_then (mat_add data (fill (nrows data) (ncols data) (\<lambda>a i. cell translation i 0)))
             (\<lambda>moved. mat_mul moved rot)"
proof -
  have "for_loop (ncols data)
           (\<lambda>i trans. and_then (coeff translation i 0)
               (\<lambda>t. set_col trans i (scale_left t (Ones (nrows data) 1))))
           (uninit (nrows data) (ncols data) u)
         = Inr (fill (nrows data) (ncols data) (\<lambda>a i. cell translation i 0))"
    by (rule broadcast_loop) (use assms in \<open>simp add: coeff_def\<close>)
  then show ?thesis
    using assms by (simp add: applyTransformation_def Let_def)
qed

lemma applyTransformation_row_vector:
  assumes "nrows translation \<noteq> nrows data \<or> ncols translation \<noteq> ncols data"
    and "ncols translation \<noteq> 1" and "nrows translation = 1" and "ncols data \<le> ncols translation"
  shows "applyTransformation u data translation rot
         = and_then (mat_add data (fill (nrows data) (ncols data) (\<lambda>a i. cell translation 0 i)))
             (\<lambda>moved. mat_mul moved rot)"
proof -
  have "for_loop (ncols data)
           (\<lambda>i trans. and_then (coeff translation 0 i)
               (\<lambda>t. set_col trans i (scale_left t (Ones (nrows data) 1))))
           (uninit (nrows data) (ncols data) u)
         = Inr (fill (nrows data) (ncols data) (\<lambda>a i. cell translation 0 i))"
    by (rule broadcast_loop) (use assms in \<open>simp add: coeff_def\<close>)
  then show ?thesis
    using assms by (simp add: applyTransformation_def Let_def)
qed

lemma applyTransformation_same_shape:
  assumes "nrows translation = nrows data" and "ncols translation = ncols data"
  shows "applyTransformation u data translation rot
         = and_then (mat_add data (uninit (nrows data) (ncols data) u))
             (\<lambda>moved. mat_mul moved rot)"
  using assms by (simp add: applyTransformation_def Let_def)

lemma applyTransformation_broadcast_agree:
  assumes "nrows data \<noteq> 1"
    and "nrows col = ncols data" "ncols col = 1" "nrows row = 1" "ncols row = ncols data"
    and "\<And>i. i < ncols data \<Longrightarrow> cell col i 0 = cell row 0 i"
  shows "applyTransformation u data col rot = applyTransformation u data row rot"
proof (cases "ncols data = 1")
  case True
  have "fill (nrows data) (ncols data) (\<lambda>a i. cell col i 0)
      = fill (nrows data) (ncols data) (\<lambda>a i. cell row 0 i)"
    using assms by (auto intro!: matrix_eqI)
  moreover have "applyTransformation u data col rot
         = and_then (mat_add data (fill (nrows data) (ncols data) (\<lambda>a i. cell col i 0)))
             (\<lambda>moved. mat_mul moved rot)"
    by (rule applyTransformation_column_vector) (use assms True in simp_all)
  moreover have "applyTransformation u data row rot
         = and_then (mat_add data (fill (nrows data) (ncols data) (\<lambda>a i. cell row i 0)))
             (\<lambda>moved. mat_mul moved rot)"
    by (rule applyTransformation_column_vector) (use assms True in simp_all)
  moreover have "fill (nrows data) (ncols data) (\<lambda>a i. cell row i 0)
      = fill (nrows data) (ncols data) (\<lambda>a i. cell row 0 i)"
    using True by (auto intro!: matrix_eqI)
  ultimately show ?thesis by simp
next
  case False
  have "fill (nrows data) (ncols data) (\<lambda>a i. cell col i 0)
      = fill (nrows data) (ncols data) (\<lambda>a i. cell row 0 i)"
    using assms by (auto intro!: matrix_eqI)
  moreover have "applyTransformation u data col rot
         = and_then (mat_add data (fill (nrows data) (ncols data) (\<lambda>a i. cell col i 0)))
             (\<lambda>moved. mat_mul moved rot)"
    by (rule applyTransformation_column_vector) (use assms False in auto)
  moreover have "applyTransformation u data row rot
         = and_then (mat_add data (fill (nrows data) (ncols data) (\<lambda>a i. cell row 0 i)))
             (\<lambda>moved. mat_mul moved rot)"
    by (rule applyTransformation_row_vector) (use assms False in auto)
  ultimately show ?thesis by simp
qed

text \<open>
  Claim C4. The claim reads: \<open>applyTransformation data translation rotation\<close> is
  \<open>(data + T) * rotation\<close>, where \<open>T\<close> is \<open>translation\<close> itself when it has the shape of \<open>data\<close>,
  and the broadcast of a column or of a row vector otherwise. The two broadcasts are
  \<open>applyTransformation_column_vector\<close> and \<open>applyTransformation_row_vector\<close>. For a translation of
  the shape of \<open>data\<close> the source never copies \<open>translation\<close> into \<^verbatim>\<open>trans\<close>, which stays as
  allocated (\<open>applyTransformation_same_shape\<close>): with memory holding zeros, the point \<open>(1, 2)\<close>
  translated by \<open>(5, 6)\<close> comes back as \<open>(1, 2)\<close>, where \<open>(data + translation) * rotation\<close> is
  \<open>(6, 8)\<close>.
\<close>

theorem applyTransformation_same_shape_ignores_translation:
  "applyTransformation (\<lambda>i j. 0) (from_rows 1 2 [[1, 2]]) (from_rows 1 2 [[5, 6]]) (Identity 2 2)
     = Inr (from_rows 1 2 [[1, 2]]) \<and>
   and_then (mat_add (from_rows 1 2 [[1, 2]]) (from_rows 1 2 [[5, 6]]))
       (\<lambda>moved. mat_mul moved (Identity 2 2))
     = Inr (from_rows 1 2 [[6, 8]])"
  by (auto simp: applyTransformation_same_shape uninit_def mat_add_def mat_mul_def Identity_def
      lessThan_Suc numeral_2_eq_2 less_Suc_eq intro!: matrix_eqI)

theorem applyTransformation_same_shape_ignores_translation_witness:
  "applyTransformation (\<lambda>i j. 0) (from_rows 1 2 [[1, 2]]) (from_rows 1 2 [[5, 6]]) (Identity 2 2)
     \<noteq> and_then (mat_add (from_rows 1 2 [[1, 2]]) (from_rows 1 2 [[5, 6]]))
         (\<lambda>moved. mat_mul moved (Identity 2 2))"
proof -
  have "from_rows 1 2 [[1, 2]] \<noteq> from_rows 1 2 [[6, 8]]"
    by (rule matrix_neqI [of _ 0 0]) simp
  with applyTransformation_same_shape_ignores_translation show ?thesis
    by simp
qed

text \<open>
  Claim C7. The claim reads: a column vector \<open>(cols, 1)\<close> and the row vector \<open>(1, cols)\<close> of the same
  values give the same result, for any data matrix. It holds for every data matrix that does not
  have exactly one row (\<open>applyTransformation_broadcast_agree\<close>). For a single point the row vector
  has the shape of \<open>data\<close> and falls into the case above: the column vector \<open>(5, 6)\<close> moves
  \<open>(1, 2)\<close> to \<open>(6, 8)\<close>, the row vector \<open>(5, 6)\<close> leaves it at \<open>(1, 2)\<close>.
\<close>

theorem applyTransformation_row_column_differ:
  "applyTransformation (\<lambda>i j. 0) (from_rows 1 2 [[1, 2]]) (from_rows 2 1 [[5], [6]]) (Identity 2 2)
     = Inr (from_rows 1 2 [[6, 8]]) \<and>
   applyTransformation (\<lambda>i j. 0) (from_rows 1 2 [[1, 2]]) (from_rows 1 2 [[5, 6]]) (Identity 2 2)
     = Inr (from_rows 1 2 [[1, 2]])"
  by (auto simp: applyTransformation_same_shape applyTransformation_column_vector
      uninit_def mat_add_def mat_mul_def Identity_def
      lessThan_Suc numeral_2_eq_2 less_Suc_eq intro!: matrix_eqI)

theorem applyTransformation_row_column_differ_witness:
  "applyTransformation (\<lambda>i j. 0) (from_rows 1 2 [[1, 2]]) (from_rows 2 1 [[5], [6]]) (Identity 2 2)
     \<noteq> applyTransformation (\<lambda>i j. 0) (from_rows 1 2 [[1, 2]]) (from_rows 1 2 [[5, 6]]) (Identity 2 2)"
proof -
  have "from_rows 1 2 [[6, 8]] \<noteq> from_rows 1 2 [[1, 2]]"
    by (rule matrix_neqI [of _ 0 0]) simp
  with applyTransformation_row_column_differ show ?thesis
    by simp
qed

section \<open>Point and match\<close>

lemma minus_pt_run:
  assumes "length other \<le> length this"
  shows "minus_pt this other = Inr (map (\<lambda>i. this ! i - other ! i) [0..<length other])"
proof -
  let ?n = "length other"
  let ?P = "\<lambda>i p. p = map (\<lambda>k. if k < i then this ! k - other ! k else 0) [0..<?n]"
  let ?body = "\<lambda>i p. and_then (index this i) (\<lambda>a. and_then (index other i) (\<lambda>b. setValue (a - b) i p))"
  have "\<exists>t. for_loop ?n ?body (prepare ?n []) = Inr t \<and> ?P ?n t"
  proof (rule for_loop_invariant [where P = ?P])
    show "?P 0 (prepare ?n [])"
      by (auto simp: prepare_def intro!: nth_equalityI)
  next
    fix i t
    assume i: "i < ?n" and t: "?P i t"
    have "?body i t = Inr (map (\<lambda>k. if k < Suc i then this ! k - other ! k else 0) [0..<?n])"
      using i t assms
      by (auto simp: index_def setValue_def nth_list_update less_Suc_eq intro!: nth_equalityI)
    then show "\<exists>t'. ?body i t = Inr t' \<and> ?P (Suc i) t'" by simp
  qed
  then show ?thesis
    by (auto simp: minus_pt_def intro!: nth_equalityI)
qed

lemma distanceTo_run:
  assumes "length other \<le> length this"
  shows "distanceTo this other = Inr (euclid this other)"
proof -
  define n where "n = length other"
  define diff where "diff = map (\<lambda>i. this ! i - other ! i) [0..<n]"
  define sqs where "sqs = map (\<lambda>i. (this ! i - other ! i) * (this ! i - other ! i)) [0..<n]"
  have m: "minus_pt this other = Inr diff"
    using assms by (simp add: minus_pt_run diff_def n_def)
  have s: "for_loop n (\<lambda>i sqs. and_then (index diff i) (\<lambda>d. Inr (sqs @ [d * d]))) [] = Inr sqs"
    unfolding sqs_def by (rule for_loop_push) (simp add: index_def diff_def)
  have len: "length sqs = n" by (simp add: sqs_def)
  have t: "for_loop n (\<lambda>j sum. and_then (index sqs j) (\<lambda>v. Inr (sum + v))) 0
           = Inr (0 + (\<Sum>i<n. (this ! i - other ! i) * (this ! i - other ! i)))"
    by (rule for_loop_accumulate) (simp add: index_def sqs_def)
  have "distanceTo this other = Inr (sqrt (\<Sum>i<n. (this ! i - other ! i) * (this ! i - other ! i)))"
    unfolding distanceTo_def by (simp add: m n_def [symmetric] s len t)
  then show ?thesis
    by (simp add: euclid_def n_def power2_eq_square)
qed

lemma match_point_loop:
  assumes "r < nrows cur" "cols \<le> ncols cur" "r < nrows tgt" "cols \<le> ncols tgt"
  shows "for_loop cols
           (\<lambda>c (ref, tar).
              and_then (coeff cur r c) (\<lambda>x.
              and_then (setValue x c ref) (\<lambda>ref.
              and_then (coeff tgt r c) (\<lambda>y.
              and_then (setValue y c tar) (\<lambda>tar.
              Inr (ref, tar))))))
           (prepare cols [], prepare cols [])
         = Inr (map (cell cur r) [0..<cols], map (cell tgt r) [0..<cols])"
proof -
  let ?P = "\<lambda>c (p::Point \<times> Point).
      p = (map (\<lambda>k. if k < c then cell cur r k else 0) [0..<cols],
           map (\<lambda>k. if k < c then cell tgt r k else 0) [0..<cols])"
  let ?body = "\<lambda>c (ref, tar).
              and_then (coeff cur r c) (\<lambda>x.
              and_then (setValue x c ref) (\<lambda>ref.
              and_then (coeff tgt r c) (\<lambda>y.
              and_then (setValue y c tar) (\<lambda>tar.
              Inr (ref, tar)))))"
  have "\<exists>t. for_loop cols ?body (prepare cols [], prepare cols []) = Inr t \<and> ?P cols t"
  proof (rule for_loop_invariant [where P = ?P])
    show "?P 0 (prepare cols [], prepare cols [])"
      by (auto simp: prepare_def intro!: nth_equalityI)
  next
    fix c t
    assume c: "c < cols" and t: "?P c t"
    have "?body c t = Inr (map (\<lambda>k. if k < Suc c then cell cur r k else 0) [0..<cols],
           map (\<lambda>k. if k < Suc c then cell tgt r k else 0) [0..<cols])"
      using c t assms
      by (auto simp: coeff_def setValue_def nth_list_update less_Suc_eq intro!: nth_equalityI)
    then show "\<exists>t'. ?body c t = Inr t' \<and> ?P (Suc c) t'" by simp
  qed
  then show ?thesis
    by (auto intro!: nth_equalityI)
qed

lemma match_points_loop:
  assumes "rows \<le> nrows cur" "cols \<le> ncols cur" "rows \<le> nrows tgt" "cols \<le> ncols tgt"
  shows "for_loop rows
           (\<lambda>r (tarPoints, refPoints).
              and_then (for_loop cols
                  (\<lambda>c (ref, tar).
                     and_then (coeff cur r c) (\<lambda>x.
                     and_then (setValue x c ref) (\<lambda>ref.
                     and_then (coeff tgt r c) (\<lambda>y.
                     and_then (setValue y c tar) (\<lambda>tar.
                     Inr (ref, tar))))))
                  (prepare cols [], prepare cols [])) (\<lambda>(ref, tar).
              Inr (tarPoints @ [tar], refPoints @ [ref])))
           (tp0, rp0)
         = Inr (tp0 @ map (\<lambda>r. map (cell tgt r) [0..<cols]) [0..<rows],
                rp0 @ map (\<lambda>r. map (cell cur r) [0..<cols]) [0..<rows])"
  by (rule for_loop_push2_from) (use assms in \<open>simp add: match_point_loop\<close>)

lemma match_search_loop:
  assumes "n \<le> length refs" and "\<And>j. j < n \<Longrightarrow> length (refs ! j) \<le> length tar"
  shows "for_loop n
           (\<lambda>j (bestDistance, best).
              and_then (vec_at refs j) (\<lambda>ref.
              and_then (distanceTo tar ref) (\<lambda>dist.
              if dist < bestDistance then Inr (dist, ref) else Inr (bestDistance, best))))
           init
         = Inr (foldl (nearer tar) init (take n refs))"
  using assms
proof (induction n)
  case 0
  show ?case by simp
next
  case (Suc n)
  then have "length (refs ! n) \<le> length tar" "n < length refs" by simp_all
  with Suc show ?case
    by (simp add: for_loop_Suc take_Suc_conv_app_nth vec_at_def distanceTo_run nearer_def
        split: prod.splits)
qed

lemma search_result:
  fixes d :: "'a \<Rightarrow> real"
  assumes "foldl (\<lambda>(bd, best) r. if d r < bd then (d r, r) else (bd, best)) (bd0, best0) refs
           = (bd, best)"
  shows "(bd = bd0 \<and> best = best0 \<and> (\<forall>j<length refs. bd0 \<le> d (refs ! j))) \<or>
         (\<exists>k<length refs. best = refs ! k \<and> bd = d (refs ! k) \<and> bd < bd0 \<and>
            (\<forall>j<length refs. d (refs ! k) \<le> d (refs ! j)) \<and>
            (\<forall>j<k. d (refs ! k) < d (refs ! j)))"
  using assms
proof (induction refs arbitrary: bd best rule: rev_induct)
  case Nil
  then show ?case by simp
next
  case (snoc r refs)
  obtain bd1 best1 where f: "foldl (\<lambda>(bd, best) r. if d r < bd then (d r, r) else (bd, best))
      (bd0, best0) refs = (bd1, best1)"
    by (cases "foldl (\<lambda>(bd, best) r. if d r < bd then (d r, r) else (bd, best)) (bd0, best0) refs")
  note IH = snoc.IH [OF f]
  from snoc.prems f have res: "(bd, best) = (if d r < bd1 then (d r, r) else (bd1, best1))"
    by simp
  show ?case
  proof (cases "d r < bd1")
    case True
    with res have eq: "bd = d r" "best = r" by simp_all
    have all: "\<forall>j<length refs. d r < d (refs ! j)"
      using IH True by (elim disjE exE conjE) force+
    have lt0: "d r < bd0"
      using IH True by auto
    have "\<exists>k<length (refs @ [r]). best = (refs @ [r]) ! k \<and> bd = d ((refs @ [r]) ! k) \<and> bd < bd0 \<and>
            (\<forall>j<length (refs @ [r]). d ((refs @ [r]) ! k) \<le> d ((refs @ [r]) ! j)) \<and>
            (\<forall>j<k. d ((refs @ [r]) ! k) < d ((refs @ [r]) ! j))"
    proof (intro exI [of _ "length refs"] conjI allI impI)
      fix j assume "j < length (refs @ [r])"
      then show "d ((refs @ [r]) ! length refs) \<le> d ((refs @ [r]) ! j)"
        using all by (cases "j = length refs") (auto simp: nth_append less_imp_le)
    next
      fix j assume "j < length refs"
      then show "d ((refs @ [r]) ! length refs) < d ((refs @ [r]) ! j)"
        using all by (simp add: nth_append)
    qed (use eq lt0 in simp_all)
    then show ?thesis ..
  next
    case False
    with res have eq: "bd = bd1" "best = best1" by simp_all
    from IH show ?thesis
    proof (elim disjE exE conjE)
      assume "bd1 = bd0" "best1 = best0" "\<forall>j<length refs. bd0 \<le> d (refs ! j)"
      with False eq have "bd = bd0 \<and> best = best0 \<and> (\<forall>j<length (refs @ [r]). bd0 \<le> d ((refs @ [r]) ! j))"
        by (auto simp: nth_append less_Suc_eq)
      then show ?thesis ..
    next
      fix k
      assume k: "k < length refs" "best1 = refs ! k" "bd1 = d (refs ! k)" "bd1 < bd0"
        "\<forall>j<length refs. d (refs ! k) \<le> d (refs ! j)" "\<forall>j<k. d (refs ! k) < d (refs ! j)"
      have "k < length (refs @ [r]) \<and> best = (refs @ [r]) ! k \<and> bd = d ((refs @ [r]) ! k) \<and> bd < bd0 \<and>
            (\<forall>j<length (refs @ [r]). d ((refs @ [r]) ! k) \<le> d ((refs @ [r]) ! j)) \<and>
            (\<forall>j<k. d ((refs @ [r]) ! k) < d ((refs @ [r]) ! j))"
        using k False eq by (auto simp: nth_append less_Suc_eq)
      then show ?thesis by blast
    qed
  qed
qed

lemma match_closest_loop:
  assumes "length tars = n" "length refs = n"
    and "\<And>i j. i < n \<Longrightarrow> j < n \<Longrightarrow> length (refs ! j) \<le> length (tars ! i)"
  shows "for_loop n
           (\<lambda>i closestPoints.
              and_then (vec_at tars i) (\<lambda>tar.
              and_then (vec_at refs 0) (\<lambda>first.
              and_then (for_loop (length tars)
                  (\<lambda>j (bestDistance, best).
                     and_then (vec_at refs j) (\<lambda>ref.
                     and_then (distanceTo tar ref) (\<lambda>dist.
                     if dist < bestDistance then Inr (dist, ref) else Inr (bestDistance, best))))
                  (1000000, prepare (length first) [])) (\<lambda>(bestDistance, best).
              Inr (closestPoints @ [best])))))
           cps0
         = Inr (cps0 @ map (\<lambda>i. snd (foldl (nearer (tars ! i))
                                      (1000000, replicate (length (refs ! 0)) 0) refs)) [0..<n])"
proof (rule for_loop_push_from)
  fix i :: nat and xs :: "Point list"
  assume i: "i < n"
  have "for_loop (length tars)
          (\<lambda>j (bestDistance, best).
             and_then (vec_at refs j) (\<lambda>ref.
             and_then (distanceTo (tars ! i) ref) (\<lambda>dist.
             if dist < bestDistance then Inr (dist, ref) else Inr (bestDistance, best))))
          (1000000, prepare (length (refs ! 0)) [])
        = Inr (foldl (nearer (tars ! i)) (1000000, prepare (length (refs ! 0)) []) (take (length tars) refs))"
    by (rule match_search_loop) (use assms i in simp_all)
  then show "and_then (vec_at tars i) (\<lambda>tar.
              and_then (vec_at refs 0) (\<lambda>first.
              and_then (for_loop (length tars)
                  (\<lambda>j (bestDistance, best).
                     and_then (vec_at refs j) (\<lambda>ref.
                     and_then (distanceTo tar ref) (\<lambda>dist.
                     if dist < bestDistance then Inr (dist, ref) else Inr (bestDistance, best))))
                  (1000000, prepare (length first) [])) (\<lambda>(bestDistance, best).
              Inr (xs @ [best]))))
        = Inr (xs @ [snd (foldl (nearer (tars ! i)) (1000000, replicate (length (refs ! 0)) 0) refs)])"
    using assms i by (simp add: vec_at_def prepare_def split: prod.splits)
qed

lemma match_fill_row:
  assumes "x < nrows m" "ncols m = c" "length p = c"
  shows "for_loop c (\<lambda>y closest. and_then (index p y) (\<lambda>v. set_coeff closest x y v)) m
         = Inr (m\<lparr>cell := (\<lambda>a b. if a = x \<and> b < c then p ! b else cell m a b)\<rparr>)"
proof -
  let ?P = "\<lambda>y t. t = m\<lparr>cell := (\<lambda>a b. if a = x \<and> b < y then p ! b else cell m a b)\<rparr>"
  let ?body = "\<lambda>y closest. and_then (index p y) (\<lambda>v. set_coeff closest x y v)"
  have "\<exists>t. for_loop c ?body m = Inr t \<and> ?P c t"
  proof (rule for_loop_invariant [where P = ?P])
    show "?P 0 m" by simp
  next
    fix y t
    assume y: "y < c" and t: "?P y t"
    have "?body y t = Inr (m\<lparr>cell := (\<lambda>a b. if a = x \<and> b < Suc y then p ! b else cell m a b)\<rparr>)"
      using y t assms
      by (auto simp: index_def set_coeff_def less_Suc_eq intro!: matrix_eqI)
    then show "\<exists>t'. ?body y t = Inr t' \<and> ?P (Suc y) t'" by simp
  qed
  then show ?thesis by simp
qed

lemma match_fill_loop:
  assumes "\<And>x. x < length cps \<Longrightarrow> length (cps ! x) = c"
  shows "for_loop (length cps)
           (\<lambda>x closest.
              and_then (vec_at cps x) (\<lambda>p.
              for_loop (length p)
                (\<lambda>y closest. and_then (index p y) (\<lambda>v. set_coeff closest x y v))
                closest))
           (uninit (length cps) c u)
         = Inr (fill (length cps) c (\<lambda>x y. cps ! x ! y))"
proof -
  let ?n = "length cps"
  let ?P = "\<lambda>x t. t = fill ?n c (\<lambda>a b. if a < x then cps ! a ! b else u a b)"
  let ?body = "\<lambda>x closest.
              and_then (vec_at cps x) (\<lambda>p.
              for_loop (length p)
                (\<lambda>y closest. and_then (index p y) (\<lambda>v. set_coeff closest x y v))
                closest)"
  have "\<exists>t. for_loop ?n ?body (uninit ?n c u) = Inr t \<and> ?P ?n t"
  proof (rule for_loop_invariant [where P = ?P])
    show "?P 0 (uninit ?n c u)" by (simp add: uninit_def)
  next
    fix x t
    assume x: "x < ?n" and t: "?P x t"
    have "?body x t = Inr (t\<lparr>cell := (\<lambda>a b. if a = x \<and> b < c then cps ! x ! b else cell t a b)\<rparr>)"
      using match_fill_row [of x t c "cps ! x"] x t assms [of x]
      by (simp add: vec_at_def)
    moreover have "t\<lparr>cell := (\<lambda>a b. if a = x \<and> b < c then cps ! x ! b else cell t a b)\<rparr>
        = fill ?n c (\<lambda>a b. if a < Suc x then cps ! a ! b else u a b)"
      using x t by (auto intro!: matrix_eqI simp: less_Suc_eq)
    ultimately show "\<exists>t'. ?body x t = Inr t' \<and> ?P (Suc x) t'" by simp
  qed
  then show ?thesis by (auto intro!: matrix_eqI)
qed

lemma best_of_cases:
  "(best_of tar refs cols = replicate cols 0 \<and> (\<forall>j<length refs. 1000000 \<le> euclid tar (refs ! j))) \<or>
   (\<exists>k<length refs. best_of tar refs cols = refs ! k \<and> euclid tar (refs ! k) < 1000000 \<and>
      (\<forall>j<length refs. euclid tar (refs ! k) \<le> euclid tar (refs ! j)) \<and>
      (\<forall>j<k. euclid tar (refs ! k) < euclid tar (refs ! j)))"
proof -
  obtain bd best where f: "foldl (nearer tar) (1000000, replicate cols 0) refs = (bd, best)"
    by (cases "foldl (nearer tar) (1000000, replicate cols 0) refs")
  then have "foldl (\<lambda>(bd, best) r. if euclid tar r < bd then (euclid tar r, r) else (bd, best))
      (1000000, replicate cols 0) refs = (bd, best)"
    by (simp add: nearer_def)
  from search_result [OF this] f show ?thesis
    by (auto simp: best_of_def)
qed

lemma length_best_of:
  assumes "\<And>j. j < length refs \<Longrightarrow> length (refs ! j) = cols"
  shows "length (best_of tar refs cols) = cols"
  using best_of_cases [of tar refs cols] assms by auto

lemma match_run:
  assumes "tarPoints s = []" "refPoints s = []" "closestPoints s = []"
    and "0 < nrows (mRef s)"
    and "nrows (mRef s) \<le> nrows (curRef s)" "ncols (mRef s) \<le> ncols (curRef s)"
    and "nrows (mRef s) \<le> nrows (mTarget s)" "ncols (mRef s) \<le> ncols (mTarget s)"
  shows "match u s =
     (let rows = nrows (mRef s); cols = ncols (mRef s);
          tars = points_of (mTarget s) rows cols;
          refs = points_of (curRef s) rows cols;
          cps = map (\<lambda>i. best_of (tars ! i) refs cols) [0..<rows]
      in Inr (fill rows cols (\<lambda>x y. cps ! x ! y),
              s\<lparr>tarPoints := tars, refPoints := refs, closestPoints := cps\<rparr>))"
proof -
  define rows cols where "rows = nrows (mRef s)" and "cols = ncols (mRef s)"
  define tars refs where "tars = points_of (mTarget s) rows cols"
    and "refs = points_of (curRef s) rows cols"
  define cps where "cps = map (\<lambda>i. best_of (tars ! i) refs cols) [0..<rows]"
  have len: "length tars = rows" "length refs = rows" "length cps = rows"
    by (simp_all add: tars_def refs_def cps_def points_of_def)
  have lens: "\<And>i. i < rows \<Longrightarrow> length (tars ! i) = cols" "\<And>i. i < rows \<Longrightarrow> length (refs ! i) = cols"
    by (simp_all add: tars_def refs_def points_of_def)
  have first: "length (refs ! 0) = cols"
    using assms(4) lens(2) [of 0] by (simp add: rows_def)
  have l1: "for_loop rows
           (\<lambda>r (tarPoints, refPoints).
              and_then (for_loop cols
                  (\<lambda>c (ref, tar).
                     and_then (coeff (curRef s) r c) (\<lambda>x.
                     and_then (setValue x c ref) (\<lambda>ref.
                     and_then (coeff (mTarget s) r c) (\<lambda>y.
                     and_then (setValue y c tar) (\<lambda>tar.
                     Inr (ref, tar))))))
                  (prepare cols [], prepare cols [])) (\<lambda>(ref, tar).
              Inr (tarPoints @ [tar], refPoints @ [ref])))
           ([], []) = Inr (tars, refs)"
    using match_points_loop [of rows "curRef s" cols "mTarget s" "[]" "[]"] assms
    by (simp add: rows_def cols_def tars_def refs_def points_of_def)
  have l2: "for_loop rows
           (\<lambda>i closestPoints.
              and_then (vec_at tars i) (\<lambda>tar.
              and_then (vec_at refs 0) (\<lambda>first.
              and_then (for_loop rows
                  (\<lambda>j (bestDistance, best).
                     and_then (vec_at refs j) (\<lambda>ref.
                     and_then (distanceTo tar ref) (\<lambda>dist.
                     if dist < bestDistance then Inr (dist, ref) else Inr (bestDistance, best))))
                  (1000000, prepare (length first) [])) (\<lambda>(bestDistance, best).
              Inr (closestPoints @ [best])))))
           [] = Inr cps"
    using match_closest_loop [of tars rows refs "[]"] len lens first
    by (simp add: cps_def best_of_def)
  have cl: "\<And>x. x < length cps \<Longrightarrow> length (cps ! x) = cols"
    using len lens by (simp add: cps_def length_best_of)
  have l3: "for_loop (length cps)
           (\<lambda>x closest.
              and_then (vec_at cps x) (\<lambda>p.
              for_loop (length p)
                (\<lambda>y closest. and_then (index p y) (\<lambda>v. set_coeff closest x y v))
                closest))
           (uninit (length cps) cols u)
         = Inr (fill (length cps) cols (\<lambda>x y. cps ! x ! y))"
    by (rule match_fill_loop) (fact cl)
  have c0: "vec_at cps 0 = Inr (cps ! 0)" "length (cps ! 0) = cols"
    using assms(4) len cl [of 0] by (simp_all add: vec_at_def rows_def)
  have "match u s = Inr (fill rows cols (\<lambda>x y. cps ! x ! y),
              s\<lparr>tarPoints := tars, refPoints := refs, closestPoints := cps\<rparr>)"
    unfolding match_def Let_def rows_def [symmetric] cols_def [symmetric]
    using l3 by (simp add: assms(1-3) l1 len l2 c0)
  then show ?thesis
    by (simp add: Let_def rows_def cols_def tars_def refs_def cps_def)
qed

lemma row_of_fill:
  "i < r \<Longrightarrow> row_of (fill r c f) i = map (f i) [0..<c]"
  by (simp add: row_of_def)

lemma points_of_nth:
  "i < nrows m \<Longrightarrow> points_of m (nrows m) (ncols m) ! i = row_of m i"
  by (simp add: points_of_def row_of_def)

lemma match_rows:
  assumes "tarPoints s = []" "refPoints s = []" "closestPoints s = []"
    and "0 < nrows (mRef s)"
    and "nrows (curRef s) = nrows (mRef s)" "ncols (curRef s) = ncols (mRef s)"
    and "nrows (mTarget s) = nrows (mRef s)" "ncols (mTarget s) = ncols (mRef s)"
  shows "\<exists>closest s'. match u s = Inr (closest, s') \<and>
           nrows closest = nrows (mTarget s) \<and> ncols closest = ncols (mTarget s) \<and>
           (\<forall>i<nrows (mTarget s). row_of closest i =
              best_of (row_of (mTarget s) i)
                (points_of (curRef s) (nrows (curRef s)) (ncols (curRef s))) (ncols (mTarget s)))"
proof -
  let ?rows = "nrows (mRef s)" and ?cols = "ncols (mRef s)"
  let ?tars = "points_of (mTarget s) ?rows ?cols" and ?refs = "points_of (curRef s) ?rows ?cols"
  let ?cps = "map (\<lambda>i. best_of (?tars ! i) ?refs ?cols) [0..<?rows]"
  have run: "match u s = Inr (fill ?rows ?cols (\<lambda>x y. ?cps ! x ! y),
              s\<lparr>tarPoints := ?tars, refPoints := ?refs, closestPoints := ?cps\<rparr>)"
    using match_run [of s u] assms by (simp add: Let_def)
  have lens: "\<And>j. j < length ?refs \<Longrightarrow> length (?refs ! j) = ?cols"
    by (simp add: points_of_def)
  have "row_of (fill ?rows ?cols (\<lambda>x y. ?cps ! x ! y)) i
        = best_of (row_of (mTarget s) i) ?refs ?cols" if "i < ?rows" for i
  proof -
    have "length (best_of (?tars ! i) ?refs ?cols) = ?cols"
      by (rule length_best_of) (fact lens)
    then have "map ((!) (best_of (?tars ! i) ?refs ?cols)) [0..<?cols] = best_of (?tars ! i) ?refs ?cols"
      by (metis map_nth)
    moreover have "?tars ! i = row_of (mTarget s) i"
      using that assms points_of_nth [of i "mTarget s"] by simp
    ultimately show ?thesis
      using that by (simp add: row_of_fill)
  qed
  with run assms show ?thesis by simp
qed

lemma match_nearest_within_sentinel:
  assumes "tarPoints s = []" "refPoints s = []" "closestPoints s = []"
    and "0 < nrows (mRef s)"
    and "nrows (curRef s) = nrows (mRef s)" "ncols (curRef s) = ncols (mRef s)"
    and "nrows (mTarget s) = nrows (mRef s)" "ncols (mTarget s) = ncols (mRef s)"
    and "i < nrows (mTarget s)"
    and "j < nrows (curRef s)" "euclid (row_of (mTarget s) i) (row_of (curRef s) j) < 1000000"
  shows "\<exists>closest s'. match u s = Inr (closest, s') \<and>
           nrows closest = nrows (mTarget s) \<and> ncols closest = ncols (mTarget s) \<and>
           (\<exists>k<nrows (curRef s). row_of closest i = row_of (curRef s) k \<and>
              (\<forall>j<nrows (curRef s). euclid (row_of (mTarget s) i) (row_of (curRef s) k)
                  \<le> euclid (row_of (mTarget s) i) (row_of (curRef s) j)) \<and>
              (\<forall>j<k. euclid (row_of (mTarget s) i) (row_of (curRef s) k)
                  < euclid (row_of (mTarget s) i) (row_of (curRef s) j)))"
proof -
  let ?refs = "points_of (curRef s) (nrows (curRef s)) (ncols (curRef s))"
  let ?tar = "row_of (mTarget s) i"
  from match_rows [OF assms(1-8), of u] obtain closest s' where
    m: "match u s = Inr (closest, s')" "nrows closest = nrows (mTarget s)"
       "ncols closest = ncols (mTarget s)"
       "row_of closest i = best_of ?tar ?refs (ncols (mTarget s))"
    using assms(9) by blast
  have len: "length ?refs = nrows (curRef s)"
    by (simp add: points_of_def)
  have nth: "\<And>k. k < nrows (curRef s) \<Longrightarrow> ?refs ! k = row_of (curRef s) k"
    by (rule points_of_nth)
  from best_of_cases [of ?tar ?refs "ncols (mTarget s)"] assms(10,11)
  obtain k where "k < nrows (curRef s)" "best_of ?tar ?refs (ncols (mTarget s)) = ?refs ! k"
     "\<forall>j<nrows (curRef s). euclid ?tar (?refs ! k) \<le> euclid ?tar (?refs ! j)"
     "\<forall>j<k. euclid ?tar (?refs ! k) < euclid ?tar (?refs ! j)"
    unfolding len using nth [of j] by fastforce
  then have "k < nrows (curRef s) \<and> row_of closest i = row_of (curRef s) k \<and>
              (\<forall>j<nrows (curRef s). euclid ?tar (row_of (curRef s) k)
                  \<le> euclid ?tar (row_of (curRef s) j)) \<and>
              (\<forall>j<k. euclid ?tar (row_of (curRef s) k) < euclid ?tar (row_of (curRef s) j))"
    using m(4) nth by auto
  with m(1-3) show ?thesis by blast
qed

lemma match_beyond_sentinel:
  assumes "tarPoints s = []" "refPoints s = []" "closestPoints s = []"
    and "0 < nrows (mRef s)"
    and "nrows (curRef s) = nrows (mRef s)" "ncols (curRef s) = ncols (mRef s)"
    and "nrows (mTarget s) = nrows (mRef s)" "ncols (mTarget s) = ncols (mRef s)"
    and "i < nrows (mTarget s)"
    and "\<forall>j<nrows (curRef s). 1000000 \<le> euclid (row_of (mTarget s) i) (row_of (curRef s) j)"
  shows "\<exists>closest s'. match u s = Inr (closest, s') \<and>
           row_of closest i = replicate (ncols (mTarget s)) 0"
proof -
  let ?refs = "points_of (curRef s) (nrows (curRef s)) (ncols (curRef s))"
  let ?tar = "row_of (mTarget s) i"
  from match_rows [OF assms(1-8), of u] obtain closest s' where
    m: "match u s = Inr (closest, s')"
       "row_of closest i = best_of ?tar ?refs (ncols (mTarget s))"
    using assms(9) by blast
  have len: "length ?refs = nrows (curRef s)"
    by (simp add: points_of_def)
  have nth: "\<And>k. k < nrows (curRef s) \<Longrightarrow> ?refs ! k = row_of (curRef s) k"
    by (rule points_of_nth)
  from best_of_cases [of ?tar ?refs "ncols (mTarget s)"] assms(10)
  have "best_of ?tar ?refs (ncols (mTarget s)) = replicate (ncols (mTarget s)) 0"
    unfolding len using nth by fastforce
  with m show ?thesis by simp
qed

lemma far_apart_rows:
  "row_of (mTarget far_apart) 0 = [0, 0]" "row_of (curRef far_apart) 0 = [2000000, 0]"
  "euclid (row_of (mTarget far_apart) 0) (row_of (curRef far_apart) 0) = 2000000"
proof -
  show t: "row_of (mTarget far_apart) 0 = [0, 0]"
    by (simp add: far_apart_def new_ICP_def row_of_def upt_rec [of 0] upt_rec [of 1] numeral_2_eq_2)
  show r: "row_of (curRef far_apart) 0 = [2000000, 0]"
    by (simp add: far_apart_def new_ICP_def row_of_def upt_rec [of 0] upt_rec [of 1] numeral_2_eq_2)
  have "sqrt ((2000000::real)\<^sup>2) = 2000000" by simp
  moreover have "euclid [0, 0] [2000000, 0] = sqrt ((2000000::real)\<^sup>2)"
    by (simp add: euclid_def lessThan_Suc numeral_2_eq_2)
  ultimately show "euclid (row_of (mTarget far_apart) 0) (row_of (curRef far_apart) 0) = 2000000"
    by (simp only: t r)
qed

text \<open>
  Claim C1. The claim reads: row \<open>i\<close> of the matrix returned by \<open>match\<close> is the point of the
  current reference nearest to target point \<open>i\<close>, the first one in case of ties, and the matrix
  has the shape of the target. The shape and the order are as claimed (\<open>match_rows\<close>), and so is
  the row whenever some reference point lies nearer than \<open>1000000\<close>
  (\<open>match_nearest_within_sentinel\<close>). The search starts from the best distance \<open>1000000\<close> and a
  zero point, though, so a reference farther away than that is never taken: for the single
  target point \<open>(0, 0)\<close> and the single reference point \<open>(2000000, 0)\<close> the row returned is
  \<open>(0, 0)\<close>, which is no reference point.
\<close>

theorem match_misses_far_reference:
  "\<exists>closest s'. match u far_apart = Inr (closest, s') \<and> row_of closest 0 = [0, 0] \<and>
     nrows (curRef far_apart) = 1 \<and> row_of (curRef far_apart) 0 = [2000000, 0]"
proof -
  have "\<forall>j<nrows (curRef far_apart).
      1000000 \<le> euclid (row_of (mTarget far_apart) 0) (row_of (curRef far_apart) j)"
    using far_apart_rows(3) by (simp add: far_apart_def new_ICP_def)
  from match_beyond_sentinel [of far_apart 0 u, OF _ _ _ _ _ _ _ _ _ this] far_apart_rows(2)
  show ?thesis
    by (simp add: far_apart_def new_ICP_def numeral_2_eq_2)
qed

theorem match_misses_far_reference_witness:
  "\<not> (\<exists>closest s'. match (\<lambda>i j. 0) far_apart = Inr (closest, s') \<and>
        row_of closest 0 = row_of (curRef far_apart) 0)"
  using match_misses_far_reference [of "\<lambda>i j. 0"] by auto

lemma near_by_rows:
  "row_of (mTarget near_by) 0 = [0, 0]" "row_of (curRef near_by) 0 = [3, 4]"
  "euclid (row_of (mTarget near_by) 0) (row_of (curRef near_by) 0) = 5"
proof -
  show t: "row_of (mTarget near_by) 0 = [0, 0]"
    by (simp add: near_by_def new_ICP_def row_of_def upt_rec [of 0] upt_rec [of 1] numeral_2_eq_2)
  show r: "row_of (curRef near_by) 0 = [3, 4]"
    by (simp add: near_by_def new_ICP_def row_of_def upt_rec [of 0] upt_rec [of 1] numeral_2_eq_2)
  have "sqrt ((5::real)\<^sup>2) = 5" by simp
  moreover have "euclid [0, 0] [3, 4] = sqrt ((5::real)\<^sup>2)"
    by (simp add: euclid_def lessThan_Suc numeral_2_eq_2)
  ultimately show "euclid (row_of (mTarget near_by) 0) (row_of (curRef near_by) 0) = 5"
    by (simp only: t r)
qed

text \<open>
  Claim C10. The linear search of \<open>match\<close> starts from the best distance \<open>1000000\<close> and a best
  point of zeros, and replaces them by a reference point only at a strictly smaller distance: row
  \<open>i\<close> of the matrix returned is what the search over the points of the current reference,
  started from that pair, ends with. So when every point of the current reference is at distance
  \<open>1000000\<close> or more from target point \<open>i\<close>, the row is the zero point; and when some point
  is nearer than \<open>1000000\<close>, the row is the first reference point at the least distance. The
  state is that of a round of \<open>solve\<close>: the point buffers cleared, the current reference and
  the target of the shape of the reference, which has at least one row.
\<close>

theorem match_sentinel_zero_row:
  assumes "tarPoints s = []" "refPoints s = []" "closestPoints s = []"
    and "0 < nrows (mRef s)"
    and "nrows (curRef s) = nrows (mRef s)" "ncols (curRef s) = ncols (mRef s)"
    and "nrows (mTarget s) = nrows (mRef s)" "ncols (mTarget s) = ncols (mRef s)"
    and "i < nrows (mTarget s)"
  shows "\<exists>closest s'. match u s = Inr (closest, s') \<and>
           row_of closest i =
             snd (foldl (nearer (row_of (mTarget s) i))
                    (1000000, replicate (ncols (mTarget s)) 0)
                    (points_of (curRef s) (nrows (curRef s)) (ncols (curRef s)))) \<and>
           ((\<forall>j<nrows (curRef s). 1000000 \<le> euclid (row_of (mTarget s) i) (row_of (curRef s) j))
              \<longrightarrow> row_of closest i = replicate (ncols (mTarget s)) 0) \<and>
           ((\<exists>j<nrows (curRef s). euclid (row_of (mTarget s) i) (row_of (curRef s) j) < 1000000)
              \<longrightarrow> (\<exists>k<nrows (curRef s). row_of closest i = row_of (curRef s) k \<and>
                     euclid (row_of (mTarget s) i) (row_of (curRef s) k) < 1000000 \<and>
                     (\<forall>j<nrows (curRef s). euclid (row_of (mTarget s) i) (row_of (curRef s) k)
                         \<le> euclid (row_of (mTarget s) i) (row_of (curRef s) j)) \<and>
                     (\<forall>j<k. euclid (row_of (mTarget s) i) (row_of (curRef s) k)
                         < euclid (row_of (mTarget s) i) (row_of (curRef s) j))))"
proof -
  let ?refs = "points_of (curRef s) (nrows (curRef s)) (ncols (curRef s))"
  let ?tar = "row_of (mTarget s) i"
  let ?cols = "ncols (mTarget s)"
  from match_rows [OF assms(1-8), of u] obtain closest s' where
    m: "match u s = Inr (closest, s')" "row_of closest i = best_of ?tar ?refs ?cols"
    using assms(9) by blast
  have len: "length ?refs = nrows (curRef s)"
    by (simp add: points_of_def)
  have nth: "\<And>k. k < nrows (curRef s) \<Longrightarrow> ?refs ! k = row_of (curRef s) k"
    by (rule points_of_nth)
  note cases = best_of_cases [of ?tar ?refs ?cols, unfolded len]
  have start: "row_of closest i = snd (foldl (nearer ?tar) (1000000, replicate ?cols 0) ?refs)"
    using m(2) by (simp add: best_of_def)
  have far: "row_of closest i = replicate ?cols 0"
    if "\<forall>j<nrows (curRef s). 1000000 \<le> euclid ?tar (row_of (curRef s) j)"
    using cases that nth m(2) by fastforce
  have near: "\<exists>k<nrows (curRef s). row_of closest i = row_of (curRef s) k \<and>
                     euclid ?tar (row_of (curRef s) k) < 1000000 \<and>
                     (\<forall>j<nrows (curRef s). euclid ?tar (row_of (curRef s) k)
                         \<le> euclid ?tar (row_of (curRef s) j)) \<and>
                     (\<forall>j<k. euclid ?tar (row_of (curRef s) k) < euclid ?tar (row_of (curRef s) j))"
    if "\<exists>j<nrows (curRef s). euclid ?tar (row_of (curRef s) j) < 1000000"
  proof -
    from that obtain j where j: "j < nrows (curRef s)" "euclid ?tar (?refs ! j) < 1000000"
      using nth by auto
    with cases obtain k where k: "k < nrows (curRef s)" "best_of ?tar ?refs ?cols = ?refs ! k"
      "euclid ?tar (?refs ! k) < 1000000"
      "\<forall>j<nrows (curRef s). euclid ?tar (?refs ! k) \<le> euclid ?tar (?refs ! j)"
      "\<forall>j<k. euclid ?tar (?refs ! k) < euclid ?tar (?refs ! j)"
      by fastforce
    then have "k < nrows (curRef s) \<and> row_of closest i = row_of (curRef s) k \<and>
                     euclid ?tar (row_of (curRef s) k) < 1000000 \<and>
                     (\<forall>j<nrows (curRef s). euclid ?tar (row_of (curRef s) k)
                         \<le> euclid ?tar (row_of (curRef s) j)) \<and>
                     (\<forall>j<k. euclid ?tar (row_of (curRef s) k) < euclid ?tar (row_of (curRef s) j))"
      using m(2) nth by auto
    then show ?thesis by blast
  qed
  show ?thesis
    by (rule exI [of _ closest], rule exI [of _ s'], intro conjI impI)
       (rule m(1), rule start, erule far, erule near)
qed

theorem match_sentinel_zero_row_witness:
  "(\<exists>closest s'. match (\<lambda>i j. 0) far_apart = Inr (closest, s') \<and> row_of closest 0 = [0, 0]) \<and>
   (\<exists>closest s'. match (\<lambda>i j. 0) near_by = Inr (closest, s') \<and> row_of closest 0 = [3, 4])"
proof
  have far: "\<forall>j<nrows (curRef far_apart).
      1000000 \<le> euclid (row_of (mTarget far_apart) 0) (row_of (curRef far_apart) j)"
    using far_apart_rows(3) by (simp add: far_apart_def new_ICP_def)
  have "tarPoints far_apart = []" "refPoints far_apart = []" "closestPoints far_apart = []"
    "0 < nrows (mRef far_apart)"
    "nrows (curRef far_apart) = nrows (mRef far_apart)"
    "ncols (curRef far_apart) = ncols (mRef far_apart)"
    "nrows (mTarget far_apart) = nrows (mRef far_apart)"
    "ncols (mTarget far_apart) = ncols (mRef far_apart)"
    "0 < nrows (mTarget far_apart)"
    by (simp_all add: far_apart_def new_ICP_def)
  from match_sentinel_zero_row [OF this, of "\<lambda>i j. 0"] obtain closest s' where
    "match (\<lambda>i j. 0) far_apart = Inr (closest, s')"
    "(\<forall>j<nrows (curRef far_apart).
        1000000 \<le> euclid (row_of (mTarget far_apart) 0) (row_of (curRef far_apart) j))
      \<longrightarrow> row_of closest 0 = replicate (ncols (mTarget far_apart)) 0"
    by blast
  with far have "match (\<lambda>i j. 0) far_apart = Inr (closest, s') \<and> row_of closest 0 = [0, 0]"
    by (simp add: far_apart_def new_ICP_def numeral_2_eq_2)
  then show "\<exists>closest s'. match (\<lambda>i j. 0) far_apart = Inr (closest, s') \<and> row_of closest 0 = [0, 0]"
    by blast
next
  have near: "\<exists>j<nrows (curRef near_by).
      euclid (row_of (mTarget near_by) 0) (row_of (curRef near_by) j) < 1000000"
    using near_by_rows(3) by (simp add: near_by_def new_ICP_def)
  have one: "nrows (curRef near_by) = 1"
    by (simp add: near_by_def new_ICP_def)
  have "tarPoints near_by = []" "refPoints near_by = []" "closestPoints near_by = []"
    "0 < nrows (mRef near_by)"
    "nrows (curRef near_by) = nrows (mRef near_by)"
    "ncols (curRef near_by) = ncols (mRef near_by)"
    "nrows (mTarget near_by) = nrows (mRef near_by)"
    "ncols (mTarget near_by) = ncols (mRef near_by)"
    "0 < nrows (mTarget near_by)"
    by (simp_all add: near_by_def new_ICP_def)
  from match_sentinel_zero_row [OF this, of "\<lambda>i j. 0"] obtain closest s' where
    c: "match (\<lambda>i j. 0) near_by = Inr (closest, s')"
    "(\<exists>j<nrows (curRef near_by).
        euclid (row_of (mTarget near_by) 0) (row_of (curRef near_by) j) < 1000000)
      \<longrightarrow> (\<exists>k<nrows (curRef near_by). row_of closest 0 = row_of (curRef near_by) k \<and>
             euclid (row_of (mTarget near_by) 0) (row_of (curRef near_by) k) < 1000000 \<and>
             (\<forall>j<nrows (curRef near_by). euclid (row_of (mTarget near_by) 0) (row_of (curRef near_by) k)
                 \<le> euclid (row_of (mTarget near_by) 0) (row_of (curRef near_by) j)) \<and>
             (\<forall>j<k. euclid (row_of (mTarget near_by) 0) (row_of (curRef near_by) k)
                 < euclid (row_of (mTarget near_by) 0) (row_of (curRef near_by) j)))"
    by blast
  from c(2) near obtain k where "k < nrows (curRef near_by)"
    "row_of closest 0 = row_of (curRef near_by) k"
    by blast
  with one near_by_rows(2) have "row_of closest 0 = [3, 4]"
    by simp
  with c(1) show "\<exists>closest s'. match (\<lambda>i j. 0) near_by = Inr (closest, s') \<and> row_of closest 0 = [3, 4]"
    by blast
qed

section \<open>The determinant\<close>

lemma skip_0 [simp]: "skip 0 x = Suc x"
  by (simp add: skip_def)

lemma skip_less: "x < n \<Longrightarrow> skip k x < Suc n"
  by (simp add: skip_def)

lemma skip_neq [simp]: "skip k x \<noteq> k"
  by (simp add: skip_def)

lemma skip_inj: "skip k x = skip k y \<longleftrightarrow> x = y"
  by (auto simp: skip_def split: if_splits)

lemma skip_Suc_Suc: "skip (Suc k) (Suc x) = Suc (skip k x)"
  by (simp add: skip_def)

lemma skip_Suc_0 [simp]: "skip (Suc k) 0 = 0"
  by (simp add: skip_def)

lemma det_cong:
  assumes "\<And>i j. i < n \<Longrightarrow> j < n \<Longrightarrow> a i j = b i j"
  shows "det n a = det n b"
  using assms
proof (induction n arbitrary: a b)
  case 0
  show ?case by simp
next
  case (Suc n)
  have "(- 1) ^ j * a 0 j * det n (minor a 0 j) = (- 1) ^ j * b 0 j * det n (minor b 0 j)"
    if "j < Suc n" for j
  proof -
    have "det n (minor a 0 j) = det n (minor b 0 j)"
      by (rule Suc.IH) (simp add: minor_def Suc.prems skip_less)
    with Suc.prems [of 0 j] that show ?thesis by simp
  qed
  then show ?case
    by (simp only: det.simps) (rule sum.cong, simp_all)
qed

lemma minor_minor_corner:
  "minor (minor a 0 (Suc j)) i 0 = minor (minor a (Suc i) 0) 0 j"
  by (intro ext) (simp add: minor_def skip_Suc_Suc)

lemma det_first_column:
  "det (Suc n) a = (\<Sum>i<Suc n. (- 1) ^ i * a i 0 * det n (minor a i 0))"
proof (induction n arbitrary: a)
  case 0
  show ?case by simp
next
  case (Suc n)
  let ?D = "\<lambda>i j. det n (minor (minor a (Suc i) 0) 0 j)"
  have row: "det (Suc n) (minor a 0 (Suc j))
      = (\<Sum>i<Suc n. (- 1) ^ i * a (Suc i) 0 * ?D i j)" for j
    by (subst Suc.IH) (simp add: minor_minor_corner, simp add: minor_def)
  have col: "det (Suc n) (minor a (Suc i) 0)
      = (\<Sum>j<Suc n. (- 1) ^ j * a 0 (Suc j) * ?D i j)" for i
    by (simp add: minor_def)
  have "det (Suc (Suc n)) a
      = a 0 0 * det (Suc n) (minor a 0 0)
        + (\<Sum>j<Suc n. (- 1) ^ Suc j * a 0 (Suc j) * det (Suc n) (minor a 0 (Suc j)))"
    by (simp only: det.simps(2) [of "Suc n"] sum.lessThan_Suc_shift [of _ "Suc n"]) simp
  also have "(\<Sum>j<Suc n. (- 1) ^ Suc j * a 0 (Suc j) * det (Suc n) (minor a 0 (Suc j)))
      = (\<Sum>j<Suc n. \<Sum>i<Suc n. (- 1) ^ Suc j * a 0 (Suc j) * ((- 1) ^ i * a (Suc i) 0 * ?D i j))"
    by (simp only: row sum_distrib_left)
  also have "\<dots> = (\<Sum>i<Suc n. \<Sum>j<Suc n. (- 1) ^ Suc i * a (Suc i) 0 * ((- 1) ^ j * a 0 (Suc j) * ?D i j))"
    by (subst sum.swap) (simp add: mult_ac)
  also have "\<dots> = (\<Sum>i<Suc n. (- 1) ^ Suc i * a (Suc i) 0 * det (Suc n) (minor a (Suc i) 0))"
    by (simp only: col sum_distrib_left)
  also have "a 0 0 * det (Suc n) (minor a 0 0) + \<dots>
      = (\<Sum>i<Suc (Suc n). (- 1) ^ i * a i 0 * det (Suc n) (minor a i 0))"
    by (simp only: sum.lessThan_Suc_shift [of _ "Suc n"]) simp
  finally show ?case .
qed

lemma det_transpose: "det n (\<lambda>i j. a j i) = det n a"
proof (induction n arbitrary: a)
  case 0
  show ?case by simp
next
  case (Suc n)
  have "det n (minor (\<lambda>i j. a j i) 0 j) = det n (minor a j 0)" for j
  proof -
    have "minor (\<lambda>i j. a j i) 0 j = (\<lambda>r c. minor a j 0 c r)"
      by (intro ext) (simp add: minor_def)
    then show ?thesis by (simp only: Suc.IH [of "minor a j 0"])
  qed
  then have "(\<Sum>j<Suc n. (- 1) ^ j * a j 0 * det n (minor (\<lambda>i j. a j i) 0 j))
      = (\<Sum>j<Suc n. (- 1) ^ j * a j 0 * det n (minor a j 0))"
    by simp
  then show ?case
    by (simp only: det.simps(2) [of n "\<lambda>i j. a j i"] det_first_column [of n a])
qed

declare det.simps(2) [simp del]

lemma minor_setrow_0: "minor (setrow a 0 v) 0 j = minor a 0 j"
  by (intro ext) (simp add: minor_def setrow_def)

lemma minor_setrow_Suc: "minor (setrow a (Suc r) v) 0 j = setrow (minor a 0 j) r (\<lambda>c. v (skip j c))"
  by (intro ext) (simp add: minor_def setrow_def)

lemma det_setrow_0:
  "det (Suc n) (setrow a 0 x) = (\<Sum>j<Suc n. (- 1) ^ j * x j * det n (minor a 0 j))"
  unfolding det.simps(2) minor_setrow_0 by (simp add: setrow_def)

lemma det_setrow_Suc:
  "det (Suc n) (setrow a (Suc r) x)
     = (\<Sum>j<Suc n. (- 1) ^ j * a 0 j * det n (setrow (minor a 0 j) r (\<lambda>c. x (skip j c))))"
  unfolding det.simps(2) minor_setrow_Suc by (simp add: setrow_def)

lemma det_setrow_add:
  assumes "r < n"
  shows "det n (setrow a r (\<lambda>j. v j + w j)) = det n (setrow a r v) + det n (setrow a r w)"
  using assms
proof (induction n arbitrary: a r v w)
  case 0
  then show ?case by simp
next
  case (Suc n)
  show ?case
  proof (cases r)
    case 0
    show ?thesis
      by (simp only: 0 det_setrow_0) (simp add: algebra_simps sum.distrib)
  next
    case (Suc r')
    with Suc.prems have r': "r' < n" by simp
    have "det n (setrow (minor a 0 j) r' (\<lambda>c. v (skip j c) + w (skip j c)))
        = det n (setrow (minor a 0 j) r' (\<lambda>c. v (skip j c)))
          + det n (setrow (minor a 0 j) r' (\<lambda>c. w (skip j c)))" for j
      by (rule Suc.IH [OF r'])
    then show ?thesis
      by (simp only: Suc det_setrow_Suc) (simp add: algebra_simps sum.distrib)
  qed
qed

lemma det_setrow_scale:
  assumes "r < n"
  shows "det n (setrow a r (\<lambda>j. c * v j)) = c * det n (setrow a r v)"
  using assms
proof (induction n arbitrary: a r v)
  case 0
  then show ?case by simp
next
  case (Suc n)
  show ?case
  proof (cases r)
    case 0
    show ?thesis
      by (simp only: 0 det_setrow_0) (simp add: algebra_simps sum_distrib_left)
  next
    case (Suc r')
    with Suc.prems have r': "r' < n" by simp
    have "det n (setrow (minor a 0 j) r' (\<lambda>b. c * v (skip j b)))
        = c * det n (setrow (minor a 0 j) r' (\<lambda>b. v (skip j b)))" for j
      by (rule Suc.IH [OF r'])
    then show ?thesis
      by (simp only: Suc det_setrow_Suc) (simp add: algebra_simps sum_distrib_left)
  qed
qed

lemma det_adjacent_columns:
  assumes "Suc c < n" and "\<And>i. i < n \<Longrightarrow> a i c = a i (Suc c)"
  shows "det n a = 0"
  using assms
proof (induction n arbitrary: a c)
  case 0
  then show ?case by simp
next
  case (Suc n)
  let ?t = "\<lambda>j. (- 1) ^ j * a 0 j * det n (minor a 0 j)"
  have other: "det n (minor a 0 j) = 0" if "j < Suc n" "j \<noteq> c" "j \<noteq> Suc c" for j
  proof (cases "j < c")
    case True
    then obtain c' where c': "c = Suc c'" by (cases c) simp_all
    show ?thesis
    proof (rule Suc.IH [of c'])
      show "Suc c' < n" using Suc.prems(1) c' by simp
      fix i assume "i < n"
      then show "minor a 0 j i c' = minor a 0 j i (Suc c')"
        using True c' Suc.prems(2) [of "Suc i"] by (simp add: minor_def skip_def)
    qed
  next
    case False
    with that have j: "Suc c < j" by simp
    show ?thesis
    proof (rule Suc.IH [of c])
      show "Suc c < n" using j that(1) by simp
      fix i assume "i < n"
      then show "minor a 0 j i c = minor a 0 j i (Suc c)"
        using j Suc.prems(2) [of "Suc i"] by (simp add: minor_def skip_def)
    qed
  qed
  have same: "det n (minor a 0 c) = det n (minor a 0 (Suc c))"
  proof (rule det_cong)
    fix i j assume "i < n" "j < n"
    then show "minor a 0 c i j = minor a 0 (Suc c) i j"
      using Suc.prems(2) [of "Suc i"] by (cases "j = c") (auto simp: minor_def skip_def)
  qed
  have "?t j = (if j = c then ?t c else 0) + (if j = Suc c then ?t (Suc c) else 0)"
    if "j < Suc n" for j
    using other [OF that] by auto
  then have "det (Suc n) a
      = (\<Sum>j<Suc n. (if j = c then ?t c else 0) + (if j = Suc c then ?t (Suc c) else 0))"
    unfolding det.simps(2) by (intro sum.cong refl) simp
  also have "\<dots> = ?t c + ?t (Suc c)"
    using Suc.prems(1) by (simp add: sum.distrib sum.delta del: sum.lessThan_Suc)
  also have "\<dots> = 0"
    using same Suc.prems(2) [of 0] by simp
  finally show ?case .
qed

lemma det_adjacent_rows:
  assumes "Suc r < n" and "\<And>j. j < n \<Longrightarrow> a r j = a (Suc r) j"
  shows "det n a = 0"
proof -
  have "det n (\<lambda>i j. a j i) = 0"
    by (rule det_adjacent_columns [of r]) (use assms in simp_all)
  then show ?thesis by (simp only: det_transpose [of n a])
qed

lemma setrow_commute:
  "r \<noteq> s \<Longrightarrow> setrow (setrow a r v) s w = setrow (setrow a s w) r v"
  by (intro ext) (simp add: setrow_def)

lemma setrow_same: "setrow a r (a r) = a"
  by (intro ext) (simp add: setrow_def)

lemma det_swap_adjacent_rows:
  assumes "Suc r < n"
  shows "det n (\<lambda>i. a (swap_adj r i)) = - det n a"
proof -
  let ?p = "a r" and ?q = "a (Suc r)"
  let ?X = "\<lambda>v w. det n (setrow (setrow a r v) (Suc r) w)"
  have r: "r < n" using assms by simp
  have lin1: "?X (\<lambda>j. v j + v' j) w = ?X v w + ?X v' w" for v v' w
  proof -
    have "?X (\<lambda>j. v j + v' j) w = det n (setrow (setrow a (Suc r) w) r (\<lambda>j. v j + v' j))"
      by (simp add: setrow_commute)
    also have "\<dots> = det n (setrow (setrow a (Suc r) w) r v) + det n (setrow (setrow a (Suc r) w) r v')"
      by (rule det_setrow_add [OF r])
    also have "\<dots> = ?X v w + ?X v' w"
      by (simp add: setrow_commute)
    finally show ?thesis .
  qed
  have lin2: "?X v (\<lambda>j. w j + w' j) = ?X v w + ?X v w'" for v w w'
    by (rule det_setrow_add [OF assms])
  have zero: "?X v v = 0" for v
    by (rule det_adjacent_rows [OF assms]) (simp add: setrow_def)
  have same: "?X ?p ?q = det n a"
    by (simp add: setrow_same)
  have swapped: "?X ?q ?p = det n (\<lambda>i. a (swap_adj r i))"
    by (rule arg_cong [where f = "det n"]) (auto simp: setrow_def swap_adj_def intro!: ext)
  have "?X (\<lambda>j. ?p j + ?q j) (\<lambda>j. ?p j + ?q j) = 0"
    by (rule zero)
  then have "?X ?p ?q + ?X ?q ?p = 0"
    by (simp add: lin1 lin2 zero)
  then show ?thesis
    by (simp add: same swapped)
qed

lemma det_equal_rows:
  assumes "r < s" "s < n" and "\<And>j. j < n \<Longrightarrow> a r j = a s j"
  shows "det n a = 0"
  using assms
proof (induction s arbitrary: a)
  case 0
  then show ?case by simp
next
  case (Suc s)
  show ?case
  proof (cases "r = s")
    case True
    show ?thesis
      by (rule det_adjacent_rows [of r]) (use Suc.prems True in simp_all)
  next
    case False
    with Suc.prems(1) have rs: "r < s" by simp
    have "det n (\<lambda>i. a (swap_adj s i)) = 0"
      by (rule Suc.IH [OF rs]) (use Suc.prems rs in \<open>simp_all add: swap_adj_def\<close>)
    moreover have "det n (\<lambda>i. a (swap_adj s i)) = - det n a"
      by (rule det_swap_adjacent_rows) (use Suc.prems in simp)
    ultimately show ?thesis by simp
  qed
qed

lemma det_equal_rows':
  assumes "r \<noteq> s" "r < n" "s < n" and "\<And>j. j < n \<Longrightarrow> a r j = a s j"
  shows "det n a = 0"
proof (cases "r < s")
  case True
  then show ?thesis using assms by (intro det_equal_rows [of r s]) simp_all
next
  case False
  with assms(1) have "s < r" by simp
  then show ?thesis using assms by (intro det_equal_rows [of s r]) simp_all
qed

lemma det_add_row_multiple:
  assumes "r \<noteq> s" "r < n" "s < n"
  shows "det n (setrow a s (\<lambda>j. a s j + c * a r j)) = det n a"
proof -
  have "det n (setrow a s (a r)) = 0"
    by (rule det_equal_rows' [OF assms]) (use assms in \<open>simp add: setrow_def\<close>)
  moreover have "det n (setrow a s (\<lambda>j. a s j + c * a r j))
      = det n (setrow a s (a s)) + c * det n (setrow a s (a r))"
    by (simp only: det_setrow_add [OF assms(3)] det_setrow_scale [OF assms(3)])
  ultimately show ?thesis
    by (simp add: setrow_same)
qed

lemma swap_adj_skip: "swap_adj k (skip k i) = skip (Suc k) i"
  by (auto simp: swap_adj_def skip_def)

lemma minor_swap_adj: "minor (\<lambda>i. a (swap_adj k i)) k j = minor a (Suc k) j"
  by (intro ext) (simp add: minor_def swap_adj_skip)

lemma det_row_expansion:
  assumes "k < Suc n"
  shows "det (Suc n) a = (\<Sum>j<Suc n. (- 1) ^ (k + j) * a k j * det n (minor a k j))"
  using assms
proof (induction k arbitrary: a)
  case 0
  show ?case by (simp add: det.simps(2))
next
  case (Suc k)
  then have k: "k < Suc n" by simp
  have "det (Suc n) a = - det (Suc n) (\<lambda>i. a (swap_adj k i))"
    using det_swap_adjacent_rows [of k "Suc n" a] Suc.prems by simp
  also have "det (Suc n) (\<lambda>i. a (swap_adj k i))
      = (\<Sum>j<Suc n. (- 1) ^ (k + j) * a (Suc k) j * det n (minor a (Suc k) j))"
    by (subst Suc.IH [OF k]) (simp add: minor_swap_adj, simp add: swap_adj_def)
  also have "- \<dots> = (\<Sum>j<Suc n. (- 1) ^ (Suc k + j) * a (Suc k) j * det n (minor a (Suc k) j))"
    by (simp add: sum_negf del: sum.lessThan_Suc)
  finally show ?case .
qed

lemma sum_skip:
  assumes "k < Suc m"
  shows "(\<Sum>l<Suc m. f l) = f k + (\<Sum>l<m. (f (skip k l) :: real))"
  using assms
proof (induction m)
  case 0
  then show ?case by simp
next
  case (Suc m)
  show ?case
  proof (cases "k = Suc m")
    case True
    then show ?thesis by (simp add: skip_def)
  next
    case False
    with Suc.prems have k: "k < Suc m" by simp
    have "(\<Sum>l<Suc (Suc m). f l) = (\<Sum>l<Suc m. f l) + f (Suc m)" by simp
    also have "\<dots> = f k + (\<Sum>l<m. f (skip k l)) + f (Suc m)"
      by (simp only: Suc.IH [OF k])
    also have "\<dots> = f k + (\<Sum>l<Suc m. f (skip k l))"
      using k by (simp add: skip_def)
    finally show ?thesis .
  qed
qed

lemma det_setrow_zero:
  assumes "r < n"
  shows "det n (setrow x r (\<lambda>j. 0)) = 0"
  using det_setrow_scale [OF assms, of x 0 "\<lambda>j. 0"] by simp

lemma det_setrow_sum:
  assumes "r < n"
  shows "det n (setrow x r (\<lambda>j. \<Sum>k<(K::nat). c k * v k j))
         = (\<Sum>k<K. c k * det n (setrow x r (v k)))"
proof (induction K)
  case 0
  show ?case by (simp add: det_setrow_zero [OF assms])
next
  case (Suc K)
  have "det n (setrow x r (\<lambda>j. \<Sum>k<Suc K. c k * v k j))
      = det n (setrow x r (\<lambda>j. (\<Sum>k<K. c k * v k j) + c K * v K j))"
    by simp
  also have "\<dots> = det n (setrow x r (\<lambda>j. \<Sum>k<K. c k * v k j))
      + det n (setrow x r (\<lambda>j. c K * v K j))"
    by (rule det_setrow_add [OF assms])
  also have "\<dots> = (\<Sum>k<K. c k * det n (setrow x r (v k))) + c K * det n (setrow x r (v K))"
    by (simp only: Suc.IH det_setrow_scale [OF assms])
  finally show ?case by simp
qed

lemma det_clear_rows:
  assumes "t \<le> n"
  shows "det n (\<lambda>i j. if 0 < i \<and> i < t then x i j + c i * x 0 j else x i j) = det n x"
  using assms
proof (induction t)
  case 0
  show ?case by simp
next
  case (Suc t)
  let ?y = "\<lambda>t i j. if 0 < i \<and> i < t then x i j + c i * x 0 j else x i j"
  have IH: "det n (?y t) = det n x"
    using Suc by simp
  show ?case
  proof (cases "t = 0")
    case True
    have "?y (Suc t) = x"
      using True by (intro ext) auto
    then show ?thesis by simp
  next
    case False
    have "?y (Suc t) = setrow (?y t) t (\<lambda>j. ?y t t j + c t * ?y t 0 j)"
      using False by (intro ext) (auto simp: setrow_def less_Suc_eq)
    moreover have "det n (setrow (?y t) t (\<lambda>j. ?y t t j + c t * ?y t 0 j)) = det n (?y t)"
      by (rule det_add_row_multiple) (use False Suc.prems in simp_all)
    ultimately show ?thesis
      using IH by simp
  qed
qed

lemma neg_one_square: "(- 1 :: real) ^ k * (- 1) ^ k = 1"
  by (simp add: power_mult_distrib [symmetric])

lemma det_mul: "det n (\<lambda>i j. \<Sum>k<n. a i k * b k j) = det n a * det n b"
proof (induction n arbitrary: a b)
  case 0
  show ?case by simp
next
  case (Suc m)
  let ?N = "Suc m"
  let ?P = "\<lambda>i j. \<Sum>k<?N. a i k * b k j"
  have P0: "?P = setrow ?P 0 (\<lambda>j. \<Sum>k<?N. a 0 k * b k j)"
    by (intro ext) (simp add: setrow_def)
  have "det ?N (setrow ?P 0 (\<lambda>j. \<Sum>k<?N. a 0 k * b k j))
      = (\<Sum>k<?N. a 0 k * det ?N (setrow ?P 0 (b k)))"
    by (rule det_setrow_sum) simp
  with P0 have s1: "det ?N ?P = (\<Sum>k<?N. a 0 k * det ?N (setrow ?P 0 (b k)))"
    by simp
  have each: "det ?N (setrow ?P 0 (b k)) = (- 1) ^ k * det m (minor a 0 k) * det ?N b"
    if k: "k < ?N" for k
  proof -
    define M where "M = setrow ?P 0 (b k)"
    define C where "C = (\<lambda>i j. if 0 < i \<and> i < ?N then M i j + (- a i k) * M 0 j else M i j)"
    have CM: "det ?N C = det ?N M"
      unfolding C_def by (rule det_clear_rows) simp
    have C0: "C 0 j = b k j" for j
      by (simp add: C_def M_def setrow_def)
    have minorC: "det m (minor C 0 j) = det m (minor a 0 k) * det m (minor b k j)" for j
    proof -
      have "det m (minor C 0 j) = det m (\<lambda>r c. \<Sum>l<m. minor a 0 k r l * minor b k j l c)"
      proof (rule det_cong)
        fix r c assume rc: "r < m" "c < m"
        have "minor C 0 j r c
            = (\<Sum>l<?N. a (Suc r) l * b l (skip j c)) - a (Suc r) k * b k (skip j c)"
          using rc by (simp add: minor_def C_def M_def setrow_def)
        also have "(\<Sum>l<?N. a (Suc r) l * b l (skip j c))
            = a (Suc r) k * b k (skip j c)
              + (\<Sum>l<m. a (Suc r) (skip k l) * b (skip k l) (skip j c))"
          by (rule sum_skip [OF k])
        finally show "minor C 0 j r c = (\<Sum>l<m. minor a 0 k r l * minor b k j l c)"
          by (simp add: minor_def)
      qed
      also have "\<dots> = det m (minor a 0 k) * det m (minor b k j)"
        by (rule Suc.IH)
      finally show ?thesis .
    qed
    have "det ?N C = (\<Sum>j<?N. (- 1) ^ j * b k j * det m (minor C 0 j))"
      by (simp only: det.simps(2) C0)
    also have "\<dots> = (\<Sum>j<?N. (- 1) ^ k * det m (minor a 0 k)
                        * ((- 1) ^ (k + j) * b k j * det m (minor b k j)))"
    proof (rule sum.cong [OF refl])
      fix j
      have "(- 1 :: real) ^ k * (- 1) ^ (k + j) = (- 1) ^ j"
        by (simp add: power_add mult.assoc [symmetric] neg_one_square)
      then have "(- 1) ^ j * b k j * (det m (minor a 0 k) * det m (minor b k j))
          = (- 1) ^ k * det m (minor a 0 k) * ((- 1) ^ (k + j) * b k j * det m (minor b k j))"
        by (simp add: mult_ac)
      then show "(- 1) ^ j * b k j * det m (minor C 0 j)
          = (- 1) ^ k * det m (minor a 0 k) * ((- 1) ^ (k + j) * b k j * det m (minor b k j))"
        by (simp only: minorC)
    qed
    also have "\<dots> = (- 1) ^ k * det m (minor a 0 k) * det ?N b"
      by (simp only: sum_distrib_left [symmetric] det_row_expansion [OF k, of b, symmetric])
    finally show ?thesis
      by (simp only: CM M_def)
  qed
  have "det ?N ?P = (\<Sum>k<?N. a 0 k * ((- 1) ^ k * det m (minor a 0 k) * det ?N b))"
    unfolding s1
  proof (rule sum.cong [OF refl])
    fix k assume "k \<in> {..<?N}"
    then have "k < ?N" by simp
    from each [OF this]
    show "a 0 k * det ?N (setrow ?P 0 (b k))
        = a 0 k * ((- 1) ^ k * det m (minor a 0 k) * det ?N b)"
      by (simp only:)
  qed
  also have "\<dots> = (\<Sum>k<?N. (- 1) ^ k * a 0 k * det m (minor a 0 k)) * det ?N b"
    by (simp only: sum_distrib_right) (simp add: mult_ac)
  also have "\<dots> = det ?N a * det ?N b"
    by (simp only: det.simps(2))
  finally show ?case .
qed

lemma det_identity: "det n (\<lambda>i j. if i = j then 1 else 0) = 1"
proof (induction n)
  case 0
  show ?case by simp
next
  case (Suc n)
  have m: "minor (\<lambda>i j. if i = j then 1 else (0::real)) 0 0 = (\<lambda>i j. if i = j then 1 else 0)"
    by (intro ext) (simp add: minor_def)
  have "det (Suc n) (\<lambda>i j. if i = j then 1 else 0)
      = (\<Sum>j<Suc n. if j = 0 then det n (minor (\<lambda>i j. if i = j then 1 else (0::real)) 0 0) else 0)"
    unfolding det.simps(2) by (rule sum.cong [OF refl]) simp
  also have "\<dots> = det n (minor (\<lambda>i j. if i = j then 1 else (0::real)) 0 0)"
    by (simp add: sum.delta del: sum.lessThan_Suc)
  finally show ?case
    by (simp only: m Suc.IH)
qed

section \<open>The rotation and translation solvers\<close>

lemma getCentroid_run:
  assumes "0 < nrows points"
  shows "getCentroid u points
         = Inr (fill (ncols points) 1 (\<lambda>i j. (\<Sum>r<nrows points. cell points r i) / real (nrows points)))"
proof -
  let ?c = "ncols points" and ?r = "nrows points"
  let ?mean = "\<lambda>i. (\<Sum>r<?r. cell points r i) / real ?r"
  let ?P = "\<lambda>i t. t = fill ?c 1 (\<lambda>a b. if a < i then ?mean a else u a b)"
  let ?body = "\<lambda>i centroid.
           and_then (col_sum points i) (\<lambda>sum.
           and_then (fdiv sum ?r) (\<lambda>cent.
           set_coeff centroid i 0 cent))"
  have "\<exists>t. for_loop ?c ?body (uninit ?c 1 u) = Inr t \<and> ?P ?c t"
  proof (rule for_loop_invariant [where P = ?P])
    show "?P 0 (uninit ?c 1 u)" by (simp add: uninit_def)
  next
    fix i t
    assume i: "i < ?c" and t: "?P i t"
    have "?body i t = Inr (fill ?c 1 (\<lambda>a b. if a < Suc i then ?mean a else u a b))"
      using i t assms
      by (auto simp: col_sum_def fdiv_def set_coeff_def less_Suc_eq intro!: matrix_eqI)
    then show "\<exists>t'. ?body i t = Inr t' \<and> ?P (Suc i) t'" by simp
  qed
  then show ?thesis
    by (auto simp: getCentroid_def Let_def intro!: matrix_eqI)
qed

lemma center_loop:
  assumes "n \<le> nrows ref" "n \<le> nrows target"
    and "nrows c2 = ncols ref" "ncols c2 = 1" "nrows c1 = ncols target" "ncols c1 = 1"
  shows "for_loop n
           (\<lambda>r (ref, target).
              and_then (get_row ref r) (\<lambda>rr.
              and_then (mat_sub rr (transpose_m c2)) (\<lambda>rv.
              and_then (set_row ref r rv) (\<lambda>ref.
              and_then (get_row target r) (\<lambda>tr.
              and_then (mat_sub tr (transpose_m c1)) (\<lambda>tv.
              and_then (set_row target r tv) (\<lambda>target.
              Inr (ref, target))))))))
           (ref, target)
         = Inr (ref\<lparr>cell := (\<lambda>a b. if a < n \<and> b < ncols ref
                                 then cell ref a b - cell c2 b 0 else cell ref a b)\<rparr>,
                target\<lparr>cell := (\<lambda>a b. if a < n \<and> b < ncols target
                                 then cell target a b - cell c1 b 0 else cell target a b)\<rparr>)"
proof -
  let ?P = "\<lambda>i (t :: matrix \<times> matrix).
      t = (ref\<lparr>cell := (\<lambda>a b. if a < i \<and> b < ncols ref
                                 then cell ref a b - cell c2 b 0 else cell ref a b)\<rparr>,
           target\<lparr>cell := (\<lambda>a b. if a < i \<and> b < ncols target
                                 then cell target a b - cell c1 b 0 else cell target a b)\<rparr>)"
  let ?body = "\<lambda>r (ref, target).
              and_then (get_row ref r) (\<lambda>rr.
              and_then (mat_sub rr (transpose_m c2)) (\<lambda>rv.
              and_then (set_row ref r rv) (\<lambda>ref.
              and_then (get_row target r) (\<lambda>tr.
              and_then (mat_sub tr (transpose_m c1)) (\<lambda>tv.
              and_then (set_row target r tv) (\<lambda>target.
              Inr (ref, target)))))))"
  have "\<exists>t. for_loop n ?body (ref, target) = Inr t \<and> ?P n t"
  proof (rule for_loop_invariant [where P = ?P])
    show "?P 0 (ref, target)" by simp
  next
    fix i t
    assume i: "i < n" and t: "?P i t"
    have "?body i t = Inr (ref\<lparr>cell := (\<lambda>a b. if a < Suc i \<and> b < ncols ref
                                 then cell ref a b - cell c2 b 0 else cell ref a b)\<rparr>,
           target\<lparr>cell := (\<lambda>a b. if a < Suc i \<and> b < ncols target
                                 then cell target a b - cell c1 b 0 else cell target a b)\<rparr>)"
      using i t assms
      by (auto simp: get_row_def mat_sub_def transpose_m_def set_row_def less_Suc_eq
          intro!: matrix_eqI)
    then show "\<exists>t'. ?body i t = Inr t' \<and> ?P (Suc i) t'" by simp
  qed
  then show ?thesis by simp
qed

lemma product_VUt_sel [simp]:
  "nrows (product_VUt n U V) = n" "ncols (product_VUt n U V) = n"
  "cell (product_VUt n U V) i j = (if i < n \<and> j < n then \<Sum>k<n. cell V i k * cell U j k else 0)"
  by (simp_all add: product_VUt_def)

lemma solveForOptimalRotation_covariance:
  assumes "0 < nrows ref" "nrows target = nrows ref"
  shows "solveForOptimalRotation svd u ref target =
       and_then (mat_mul (snd (svd (covariance ref target)))
                   (transpose_m (fst (svd (covariance ref target))))) (\<lambda>rotation.
       and_then (determinant rotation) (\<lambda>d.
       if d < 0
       then (if nrows rotation = 0 then Inl EigenAssert
             else scale_row rotation (nrows rotation - 1) (- 1))
       else Inr rotation))"
proof -
  define c1 where "c1 = fill (ncols target) 1 (\<lambda>i j. column_mean target i)"
  define c2 where "c2 = fill (ncols ref) 1 (\<lambda>i j. column_mean ref i)"
  have c1: "getCentroid u target = Inr c1"
    using getCentroid_run [of target u] assms by (simp add: c1_def column_mean_def)
  have c2: "getCentroid u ref = Inr c2"
    using getCentroid_run [of ref u] assms by (simp add: c2_def column_mean_def)
  define ref' where "ref' = ref\<lparr>cell := (\<lambda>a b. if a < nrows ref \<and> b < ncols ref
                                 then cell ref a b - cell c2 b 0 else cell ref a b)\<rparr>"
  define target' where "target' = target\<lparr>cell := (\<lambda>a b. if a < nrows ref \<and> b < ncols target
                                 then cell target a b - cell c1 b 0 else cell target a b)\<rparr>"
  have loop: "for_loop (nrows ref)
           (\<lambda>r (ref, target).
              and_then (get_row ref r) (\<lambda>rr.
              and_then (mat_sub rr (transpose_m c2)) (\<lambda>rv.
              and_then (set_row ref r rv) (\<lambda>ref.
              and_then (get_row target r) (\<lambda>tr.
              and_then (mat_sub tr (transpose_m c1)) (\<lambda>tv.
              and_then (set_row target r tv) (\<lambda>target.
              Inr (ref, target))))))))
           (ref, target) = Inr (ref', target')"
    unfolding ref'_def target'_def
    by (rule center_loop) (use assms in \<open>simp_all add: c1_def c2_def\<close>)
  have cov: "mat_mul (transpose_m target') ref' = Inr (covariance ref target)"
    using assms
    by (auto simp: mat_mul_def transpose_m_def ref'_def target'_def covariance_def c1_def c2_def
        intro!: matrix_eqI sum.cong)
  show ?thesis
    unfolding solveForOptimalRotation_def
    by (simp add: c1 c2 loop cov Let_def case_prod_beta)
qed

lemma rotation_of_factors:
  assumes "nrows U = n" "ncols U = n" "nrows V = n" "ncols V = n"
  shows "and_then (mat_mul V (transpose_m U)) (\<lambda>rotation.
       and_then (determinant rotation) (\<lambda>d.
       if d < 0
       then (if nrows rotation = 0 then Inl EigenAssert
             else scale_row rotation (nrows rotation - 1) (- 1))
       else Inr rotation))
     = Inr (if det n (cell (product_VUt n U V)) < 0
            then negate_last_row (product_VUt n U V) else product_VUt n U V)"
proof -
  have m: "mat_mul V (transpose_m U) = Inr (product_VUt n U V)"
    using assms by (auto simp: mat_mul_def transpose_m_def product_VUt_def intro!: matrix_eqI)
  have d: "determinant (product_VUt n U V) = Inr (det n (cell (product_VUt n U V)))"
    by (simp add: determinant_def)
  have z: "det n (cell (product_VUt n U V)) < 0 \<Longrightarrow> n \<noteq> 0"
    by (cases n) simp_all
  show ?thesis
    using z by (simp add: m d scale_row_def negate_last_row_def)
qed

lemma solveForOptimalRotation_run:
  assumes "0 < nrows ref" "nrows target = nrows ref" "ncols target = ncols ref"
    and "svd_orthogonal svd"
  shows "\<exists>U V. orthogonal (ncols ref) U \<and> orthogonal (ncols ref) V \<and>
     solveForOptimalRotation svd u ref target =
       Inr (if det (ncols ref) (cell (product_VUt (ncols ref) U V)) < 0
            then negate_last_row (product_VUt (ncols ref) U V)
            else product_VUt (ncols ref) U V)"
proof -
  let ?cov = "covariance ref target"
  have "nrows ?cov = ncols ref" "ncols ?cov = ncols ref"
    using assms(3) by (simp_all add: covariance_def)
  then have o: "orthogonal (ncols ref) (fst (svd ?cov))" "orthogonal (ncols ref) (snd (svd ?cov))"
    using assms(4) unfolding svd_orthogonal_def by metis+
  then have "nrows (fst (svd ?cov)) = ncols ref" "ncols (fst (svd ?cov)) = ncols ref"
    "nrows (snd (svd ?cov)) = ncols ref" "ncols (snd (svd ?cov)) = ncols ref"
    by (simp_all add: orthogonal_def)
  from rotation_of_factors [OF this] solveForOptimalRotation_covariance [OF assms(1,2), of svd u] o
  show ?thesis
    by auto
qed

lemma product_of_units_le:
  fixes a b :: "nat \<Rightarrow> real"
  assumes "(\<Sum>k<n. a k * a k) = 1" "(\<Sum>k<n. b k * b k) = 1"
  shows "\<bar>\<Sum>k<n. a k * b k\<bar> \<le> 1"
proof -
  have up: "2 * (a k * b k) \<le> a k * a k + b k * b k" for k
    using sum_squares_bound [of "a k" "b k"] by (simp add: power2_eq_square)
  have lo: "- (a k * a k + b k * b k) \<le> 2 * (a k * b k)" for k
  proof -
    have "0 \<le> (a k + b k)\<^sup>2" by simp
    then show ?thesis by (simp add: power2_eq_square algebra_simps)
  qed
  have "2 * (\<Sum>k<n. a k * b k) = (\<Sum>k<n. 2 * (a k * b k))"
    by (simp add: sum_distrib_left)
  also have "\<dots> \<le> (\<Sum>k<n. a k * a k + b k * b k)"
    by (rule sum_mono) (rule up)
  also have "\<dots> = 2"
    using assms by (simp add: sum.distrib)
  finally have 1: "(\<Sum>k<n. a k * b k) \<le> 1" by simp
  have "- 2 = - (\<Sum>k<n. a k * a k + b k * b k)"
    using assms by (simp add: sum.distrib)
  also have "\<dots> = (\<Sum>k<n. - (a k * a k + b k * b k))"
    by (simp only: sum_negf)
  also have "\<dots> \<le> (\<Sum>k<n. 2 * (a k * b k))"
    by (rule sum_mono) (rule lo)
  also have "\<dots> = 2 * (\<Sum>k<n. a k * b k)"
    by (simp add: sum_distrib_left)
  finally have 2: "- 1 \<le> (\<Sum>k<n. a k * b k)" by simp
  from 1 2 show ?thesis by (simp add: abs_le_iff)
qed

lemma product_VUt_entry_bound:
  assumes "orthogonal n U" "orthogonal n V" "i < n" "j < n"
  shows "\<bar>cell (product_VUt n U V) i j\<bar> \<le> 1"
proof -
  have "(\<Sum>k<n. cell V i k * cell V i k) = 1" "(\<Sum>k<n. cell U j k * cell U j k) = 1"
    using assms by (simp_all add: orthogonal_def)
  from product_of_units_le [OF this] assms(3,4) show ?thesis by simp
qed

lemma negate_last_row_sel [simp]:
  "nrows (negate_last_row m) = nrows m" "ncols (negate_last_row m) = ncols m"
  "cell (negate_last_row m) i j
     = (if i = nrows m - 1 \<and> j < ncols m then - cell m i j else cell m i j)"
  by (simp_all add: negate_last_row_def)

lemma solveForOptimalRotation_shape:
  assumes "0 < nrows ref" "nrows target = nrows ref" "ncols target = ncols ref"
    and "svd_orthogonal svd" and "2 \<le> ncols ref"
  shows "\<exists>newRot. solveForOptimalRotation svd u ref target = Inr newRot \<and>
     nrows newRot = ncols ref \<and> ncols newRot = ncols ref \<and>
     - 1 \<le> cell newRot 1 0 \<and> cell newRot 1 0 \<le> 1"
proof -
  from solveForOptimalRotation_run [OF assms(1-4), of u] obtain U V where
    o: "orthogonal (ncols ref) U" "orthogonal (ncols ref) V"
    and r: "solveForOptimalRotation svd u ref target =
       Inr (if det (ncols ref) (cell (product_VUt (ncols ref) U V)) < 0
            then negate_last_row (product_VUt (ncols ref) U V)
            else product_VUt (ncols ref) U V)"
    by blast
  have "\<bar>cell (product_VUt (ncols ref) U V) 1 0\<bar> \<le> 1"
    by (rule product_VUt_entry_bound) (use o assms(5) in simp_all)
  then have "\<bar>cell (if det (ncols ref) (cell (product_VUt (ncols ref) U V)) < 0
            then negate_last_row (product_VUt (ncols ref) U V)
            else product_VUt (ncols ref) U V) 1 0\<bar> \<le> 1"
    by (simp del: product_VUt_sel(3))
  with r show ?thesis
    by (auto simp: abs_le_iff simp del: product_VUt_sel(3) negate_last_row_sel(3))
qed

lemma solveForOptimalTranslation_run:
  assumes "0 < nrows ref" "0 < nrows target" "ncols target = ncols ref"
    and "nrows r = ncols ref" "ncols r = ncols ref"
  shows "\<exists>t. solveForOptimalTranslation u ref target r = Inr t \<and>
     nrows t = ncols ref \<and> ncols t = 1"
  using assms
  by (simp add: solveForOptimalTranslation_def getCentroid_run mat_mul_def mat_add_def
      scale_right_def)

lemma rotMatrixToDegrees_run:
  assumes "2 \<le> nrows rot" "1 \<le> ncols rot" "- 1 \<le> cell rot 1 0" "cell rot 1 0 \<le> 1"
  shows "rotMatrixToDegrees rot = Inr (arcsin (cell rot 1 0) * 180 / PI)"
  using assms by (simp add: rotMatrixToDegrees_def coeff_def)

lemma angleToRotMatrix_run:
  assumes "2 \<le> n"
  shows "angleToRotMatrix u angle n =
     Inr (fill n n (\<lambda>i j.
        if i = 0 \<and> j = 0 then cos (angle * PI / 180)
        else if i = 0 \<and> j = 1 then - sin (angle * PI / 180)
        else if i = 1 \<and> j = 0 then sin (angle * PI / 180)
        else if i = 1 \<and> j = 1 then cos (angle * PI / 180)
        else u i j))"
  using assms
  by (auto simp: angleToRotMatrix_def Let_def uninit_def set_coeff_def intro!: matrix_eqI)

section \<open>solve\<close>

lemma match_state:
  assumes "match u s = Inr (closest, s')"
  shows "\<exists>tp rp cp. s' = s\<lparr>tarPoints := tp, refPoints := rp, closestPoints := cp\<rparr>"
  using assms
  by (auto simp: match_def Let_def and_then_eq_Inr split: prod.splits)

lemma solve_iteration_frame:
  assumes "solve_iteration svd u s = Inr (s', printed)"
  shows "mRef s' = mRef s \<and> mTarget s' = mTarget s \<and>
         solvedTransform s' = solvedTransform s \<and> solvedRotation s' = solvedRotation s \<and>
         iterations s' = iterations s - 1"
  using assms
  by (auto simp: solve_iteration_def Let_def and_then_eq_Inr dest!: match_state split: prod.splits)

lemma solve_iteration_run:
  assumes "round_ready s" "svd_orthogonal svd"
  shows "\<exists>s' e. solve_iteration svd u s = Inr (s', [ErrorLine e]) \<and> round_ready s'"
proof -
  define rows cols where "rows = nrows (mRef s)" and "cols = ncols (mRef s)"
  have rd: "0 < rows" "2 \<le> cols" "nrows (mTarget s) = rows" "ncols (mTarget s) = cols"
    "nrows (curRef s) = rows" "ncols (curRef s) = cols"
    "nrows (rotation s) = cols" "ncols (rotation s) = cols"
    "- 1 \<le> cell (rotation s) 1 0" "cell (rotation s) 1 0 \<le> 1"
    using assms(1) by (simp_all add: round_ready_def rows_def cols_def)
  define s1 where "s1 = s\<lparr>closestPoints := [], tarPoints := [], refPoints := [],
     lastTransform := transform s, lastRotation := rotation s\<rparr>"
  obtain closest s2 where m: "match u s1 = Inr (closest, s2)"
    "nrows closest = rows" "ncols closest = cols"
    using match_rows [of s1 u] rd by (auto simp: s1_def rows_def cols_def)
  from match_state [OF m(1)] obtain tp rp cp where
    s2: "s2 = s1\<lparr>tarPoints := tp, refPoints := rp, closestPoints := cp\<rparr>" by blast
  obtain newRot where nr: "solveForOptimalRotation svd u closest (mTarget s) = Inr newRot"
    "nrows newRot = cols" "ncols newRot = cols" "- 1 \<le> cell newRot 1 0" "cell newRot 1 0 \<le> 1"
    using solveForOptimalRotation_shape [of closest "mTarget s" svd u] rd m assms(2) by auto
  obtain newTrans where nt: "solveForOptimalTranslation u closest (mTarget s) newRot = Inr newTrans"
    "nrows newTrans = cols" "ncols newTrans = 1"
    using solveForOptimalTranslation_run [of closest "mTarget s" newRot u] rd m nr by auto
  define lastAngle where "lastAngle = arcsin (cell (rotation s) 1 0) * 180 / PI"
  define angle where "angle = arcsin (cell newRot 1 0) * 180 / PI"
  have la: "rotMatrixToDegrees (rotation s) = Inr lastAngle"
    unfolding lastAngle_def by (rule rotMatrixToDegrees_run) (use rd in simp_all)
  have an: "rotMatrixToDegrees newRot = Inr angle"
    unfolding angle_def by (rule rotMatrixToDegrees_run) (use rd nr in simp_all)
  obtain rot where rot: "angleToRotMatrix u (lastAngle + angle) cols = Inr rot"
    "nrows rot = cols" "ncols rot = cols" "cell rot 1 0 = sin ((lastAngle + angle) * PI / 180)"
    using angleToRotMatrix_run [of cols u "lastAngle + angle"] rd by simp
  have "applyTransformation u (curRef s) newTrans rot
         = and_then (mat_add (curRef s) (fill (nrows (curRef s)) (ncols (curRef s))
               (\<lambda>a i. cell newTrans i 0)))
             (\<lambda>moved. mat_mul moved rot)"
    by (rule applyTransformation_column_vector) (use rd nt in auto)
  then obtain newRef where ap: "applyTransformation u (curRef s) newTrans rot = Inr newRef"
    "nrows newRef = rows" "ncols newRef = cols"
    using rd rot by (simp add: mat_add_def mat_mul_def)
  obtain e where e: "RMSE (mTarget s) newRef = Inr (e, [])"
    using RMSE_same_shape [of "mTarget s" newRef] rd ap by simp
  have "solve_iteration svd u s =
      Inr (s2\<lparr>rotation := rot, transform := newTrans, curRef := newRef,
              iterations := iterations s - 1\<rparr>, [ErrorLine e])"
    unfolding solve_iteration_def Let_def
    using m(1) nr(1) nt(1) la an rot(1) ap(1) e rd(7)
    by (simp add: s1_def s2)
  moreover have "round_ready (s2\<lparr>rotation := rot, transform := newTrans, curRef := newRef,
              iterations := iterations s - 1\<rparr>)"
    using rd rot ap by (simp add: round_ready_def s2 s1_def rows_def cols_def)
  ultimately show ?thesis by blast
qed

declare solve_loop.simps [simp del]

lemma solve_loop_rounds: "solve_loop svd u s = rounds (nat (iterations s)) svd u s"
proof (induction svd u s rule: solve_loop.induct)
  case (1 svd u s)
  show ?case
  proof (cases "0 < iterations s")
    case False
    then show ?thesis by (simp add: solve_loop.simps [of svd u s])
  next
    case True
    then obtain k where k: "nat (iterations s) = Suc k"
      by (cases "nat (iterations s)") simp_all
    show ?thesis
    proof (cases "solve_iteration svd u s")
      case (Inl e)
      with True k show ?thesis by (simp add: solve_loop.simps [of svd u s])
    next
      case (Inr r)
      obtain s' printed where r: "r = (s', printed)" by (cases r)
      from solve_iteration_frame [of svd u s s' printed] Inr r
      have "iterations s' = iterations s - 1" by simp
      with k have k': "nat (iterations s') = k" by simp
      from "1.IH" [OF True Inr r [symmetric]] k'
      have "solve_loop svd u s' = rounds k svd u s'" by simp
      with True k Inr r show ?thesis by (simp add: solve_loop.simps [of svd u s])
    qed
  qed
qed

lemma rounds_run:
  assumes "round_ready s" "svd_orthogonal svd"
  shows "\<exists>s' printed. rounds k svd u s = Inr (s', printed) \<and> length printed = k \<and>
           iterations s' = iterations s - int k \<and> round_ready s'"
  using assms(1)
proof (induction k arbitrary: s)
  case 0
  then show ?case by simp
next
  case (Suc k)
  from solve_iteration_run [OF Suc.prems assms(2), of u] obtain s1 e where
    1: "solve_iteration svd u s = Inr (s1, [ErrorLine e])" "round_ready s1"
    by blast
  from solve_iteration_frame [OF 1(1)] have it: "iterations s1 = iterations s - 1"
    by simp
  from Suc.IH [OF 1(2)] obtain s' printed where
    2: "rounds k svd u s1 = Inr (s', printed)" "length printed = k"
       "iterations s' = iterations s1 - int k" "round_ready s'"
    by blast
  from 1 2 it show ?case by simp
qed

lemma rounds_frame:
  assumes "rounds k svd u s = Inr (s', printed)"
  shows "mRef s' = mRef s \<and> mTarget s' = mTarget s \<and>
         solvedTransform s' = solvedTransform s \<and> solvedRotation s' = solvedRotation s"
  using assms
proof (induction k arbitrary: s printed)
  case 0
  then show ?case by simp
next
  case (Suc k)
  from Suc.prems obtain s1 p1 p2 where
    1: "solve_iteration svd u s = Inr (s1, p1)" and 2: "rounds k svd u s1 = Inr (s', p2)"
    by (auto split: sum.splits)
  from solve_iteration_frame [OF 1] Suc.IH [OF 2] show ?case by simp
qed

lemma solve_rounds:
  "solve svd u s =
     rounds (nat (iterations s)) svd u
       (s\<lparr>rotation := Identity (ncols (mRef s)) (ncols (mRef s)),
          transform := Zero (ncols (mRef s)) 1\<rparr>)"
  by (simp add: solve_def Let_def solve_loop_rounds)

lemma round_ready_start:
  assumes "0 < nrows reference" "2 \<le> ncols reference"
    and "nrows target = nrows reference" "ncols target = ncols reference"
  shows "round_ready ((new_ICP reference target sett)
           \<lparr>rotation := Identity (ncols reference) (ncols reference),
            transform := Zero (ncols reference) 1\<rparr>)"
  using assms by (simp add: round_ready_def new_ICP_def Identity_def)

lemma solve_run:
  assumes "0 < nrows reference" "2 \<le> ncols reference"
    and "nrows target = nrows reference" "ncols target = ncols reference"
    and "svd_orthogonal svd"
  shows "\<exists>s' printed. solve svd u (new_ICP reference target sett) = Inr (s', printed) \<and>
           length printed = nat (maxIterations sett) \<and>
           iterations s' = maxIterations sett - int (nat (maxIterations sett))"
proof -
  let ?s0 = "(new_ICP reference target sett)
           \<lparr>rotation := Identity (ncols reference) (ncols reference),
            transform := Zero (ncols reference) 1\<rparr>"
  have "round_ready ?s0"
    using assms(1-4) by (rule round_ready_start)
  from rounds_run [OF this assms(5), of "nat (maxIterations sett)" u]
  show ?thesis
    by (auto simp: solve_rounds new_ICP_def)
qed

lemma orthogonal_Identity: "orthogonal n (Identity n n)"
proof -
  have "(\<Sum>k<n. (if i = k then 1 else 0) * (if j = k then 1 else 0)) = (if i = j then 1 else (0::real))"
    if "i < n" "j < n" for i j
  proof -
    have "(\<Sum>k<n. (if i = k then 1 else 0) * (if j = k then 1 else 0))
        = (\<Sum>k<n. if k = i then (if j = i then 1 else (0::real)) else 0)"
      by (rule sum.cong) auto
    also have "\<dots> = (if i = j then 1 else 0)"
      using that by (simp add: sum.delta)
    finally show ?thesis .
  qed
  moreover have "(\<Sum>k<n. (if k = i then 1 else 0) * (if k = j then 1 else 0)) = (if i = j then 1 else (0::real))"
    if "i < n" "j < n" for i j
  proof -
    have "(\<Sum>k<n. (if k = i then 1 else 0) * (if k = j then 1 else 0))
        = (\<Sum>k<n. if k = i then (if j = i then 1 else (0::real)) else 0)"
      by (rule sum.cong) auto
    also have "\<dots> = (if i = j then 1 else 0)"
      using that by (simp add: sum.delta)
    finally show ?thesis .
  qed
  ultimately show ?thesis
    by (simp add: orthogonal_def Identity_def)
qed

lemma svd_orthogonal_identity_factors: "svd_orthogonal identity_factors"
  by (simp add: svd_orthogonal_def identity_factors_def orthogonal_Identity)










text \<open>
  Claim C9. \<open>solve\<close> never writes the stored reference or the stored target: when it returns they
  are the matrices it started with, those given to the constructor. The same holds for the two
  matrices \<open>solvedTransform\<close> and \<open>solvedRotation\<close>, which nothing writes. Every other field may
  be written: the final state is the initial one with new values for the current reference, the
  accumulated rotation and translation, and also for \<open>lastRotation\<close>, \<open>lastTransform\<close>, the
  three point buffers and the iteration counter.
\<close>

theorem solve_keeps_reference_and_target:
  assumes "solve svd u s = Inr (s', printed)"
  shows "mRef s' = mRef s \<and> mTarget s' = mTarget s \<and>
         solvedTransform s' = solvedTransform s \<and> solvedRotation s' = solvedRotation s \<and>
         s' = s\<lparr>curRef := curRef s', transform := transform s', lastTransform := lastTransform s',
                 rotation := rotation s', lastRotation := lastRotation s',
                 refPoints := refPoints s', tarPoints := tarPoints s',
                 closestPoints := closestPoints s', iterations := iterations s'\<rparr>"
proof -
  from assms rounds_frame [of "nat (iterations s)" svd u _ s' printed]
  have frame: "mRef s' = mRef s \<and> mTarget s' = mTarget s \<and>
         solvedTransform s' = solvedTransform s \<and> solvedRotation s' = solvedRotation s"
    by (simp add: solve_rounds)
  then have "s' = s\<lparr>curRef := curRef s', transform := transform s', lastTransform := lastTransform s',
                 rotation := rotation s', lastRotation := lastRotation s',
                 refPoints := refPoints s', tarPoints := tarPoints s',
                 closestPoints := closestPoints s', iterations := iterations s'\<rparr>"
    by (intro ICP.equality) simp_all
  with frame show ?thesis
    by simp
qed

theorem solve_keeps_reference_and_target_witness:
  "\<exists>s' printed.
     solve identity_factors (\<lambda>i j. 0) (new_ICP unit_square unit_square square_settings)
       = Inr (s', printed) \<and>
     mRef s' = unit_square \<and> mTarget s' = unit_square \<and>
     solvedTransform s' = empty_matrix \<and> solvedRotation s' = empty_matrix"
proof -
  from solve_run [of unit_square unit_square identity_factors "\<lambda>i j. 0" square_settings]
    svd_orthogonal_identity_factors
  obtain s' printed where
    run: "solve identity_factors (\<lambda>i j. 0) (new_ICP unit_square unit_square square_settings)
       = Inr (s', printed)"
    by (auto simp: unit_square_def)
  from solve_keeps_reference_and_target [OF run]
  have "mRef s' = unit_square \<and> mTarget s' = unit_square \<and>
     solvedTransform s' = empty_matrix \<and> solvedRotation s' = empty_matrix"
    by (simp add: new_ICP_def)
  with run show ?thesis
    by blast
qed

text \<open>
  The current reference, the rotation and the translation are not the only fields that change:
  on the unit square matched onto itself, \<open>solve\<close> returns with the iteration counter at \<open>0\<close>,
  which was \<open>5\<close>.
\<close>

theorem solve_writes_the_counter:
  "map_sum id (iterations \<circ> fst)
     (solve identity_factors (\<lambda>i j. 0) (new_ICP unit_square unit_square square_settings))
     = Inr 0 \<and>
   iterations (new_ICP unit_square unit_square square_settings) = 5"
proof -
  from solve_run [of unit_square unit_square identity_factors "\<lambda>i j. 0" square_settings]
    svd_orthogonal_identity_factors
  obtain s' printed where
    "solve identity_factors (\<lambda>i j. 0) (new_ICP unit_square unit_square square_settings)
       = Inr (s', printed)" "iterations s' = 0"
    by (auto simp: unit_square_def square_settings_def)
  then show ?thesis
    by (simp add: new_ICP_def square_settings_def)
qed

section \<open>The errors that are detected\<close>


lemma no_throw_Inl [simp]: "no_throw (Inl e) \<longleftrightarrow> e \<noteq> OutOfRange"
  by (simp add: no_throw_def)


























section \<open>The rotation returned by solveForOptimalRotation\<close>

lemma gram_product:
  fixes u v :: "nat \<Rightarrow> nat \<Rightarrow> real"
  assumes "\<And>a b. a < n \<Longrightarrow> b < n \<Longrightarrow> (\<Sum>k<n. u k a * u k b) = (if a = b then 1 else 0)"
  shows "(\<Sum>k<n. (\<Sum>a<n. v i a * u k a) * (\<Sum>b<n. v j b * u k b)) = (\<Sum>a<n. v i a * v j a)"
proof -
  have "(\<Sum>k<n. (\<Sum>a<n. v i a * u k a) * (\<Sum>b<n. v j b * u k b))
      = (\<Sum>k<n. \<Sum>a<n. \<Sum>b<n. v i a * v j b * (u k a * u k b))"
    by (simp add: sum_product mult_ac)
  also have "\<dots> = (\<Sum>a<n. \<Sum>k<n. \<Sum>b<n. v i a * v j b * (u k a * u k b))"
    by (rule sum.swap)
  also have "\<dots> = (\<Sum>a<n. \<Sum>b<n. \<Sum>k<n. v i a * v j b * (u k a * u k b))"
    by (rule sum.cong [OF refl]) (rule sum.swap)
  also have "\<dots> = (\<Sum>a<n. \<Sum>b<n. v i a * v j b * (\<Sum>k<n. u k a * u k b))"
    by (simp only: sum_distrib_left)
  also have "\<dots> = (\<Sum>a<n. \<Sum>b<n. if b = a then v i a * v j a else 0)"
  proof (intro sum.cong refl)
    fix a b assume "a \<in> {..<n}" "b \<in> {..<n}"
    then show "v i a * v j b * (\<Sum>k<n. u k a * u k b) = (if b = a then v i a * v j a else 0)"
      by (simp add: assms)
  qed
  also have "\<dots> = (\<Sum>a<n. v i a * v j a)"
    by (rule sum.cong [OF refl]) (simp add: sum.delta)
  finally show ?thesis .
qed

lemma orthogonal_product_VUt:
  assumes "orthogonal n U" "orthogonal n V"
  shows "orthogonal n (product_VUt n U V)"
proof -
  have U: "\<And>a b. a < n \<Longrightarrow> b < n \<Longrightarrow> (\<Sum>k<n. cell U a k * cell U b k) = (if a = b then 1 else 0)"
     "\<And>a b. a < n \<Longrightarrow> b < n \<Longrightarrow> (\<Sum>k<n. cell U k a * cell U k b) = (if a = b then 1 else 0)"
    and V: "\<And>a b. a < n \<Longrightarrow> b < n \<Longrightarrow> (\<Sum>k<n. cell V a k * cell V b k) = (if a = b then 1 else 0)"
     "\<And>a b. a < n \<Longrightarrow> b < n \<Longrightarrow> (\<Sum>k<n. cell V k a * cell V k b) = (if a = b then 1 else 0)"
    using assms by (simp_all add: orthogonal_def)
  have rows: "(\<Sum>k<n. cell (product_VUt n U V) i k * cell (product_VUt n U V) j k)
      = (if i = j then 1 else 0)" if "i < n" "j < n" for i j
  proof -
    have "(\<Sum>k<n. cell (product_VUt n U V) i k * cell (product_VUt n U V) j k)
        = (\<Sum>k<n. (\<Sum>a<n. cell V i a * cell U k a) * (\<Sum>b<n. cell V j b * cell U k b))"
      using that by (intro sum.cong refl) simp
    also have "\<dots> = (\<Sum>a<n. cell V i a * cell V j a)"
      by (rule gram_product) (rule U(2))
    finally show ?thesis using V(1) that by simp
  qed
  have cols: "(\<Sum>k<n. cell (product_VUt n U V) k i * cell (product_VUt n U V) k j)
      = (if i = j then 1 else 0)" if "i < n" "j < n" for i j
  proof -
    have "(\<Sum>k<n. cell (product_VUt n U V) k i * cell (product_VUt n U V) k j)
        = (\<Sum>k<n. (\<Sum>a<n. cell U i a * cell V k a) * (\<Sum>b<n. cell U j b * cell V k b))"
      using that by (intro sum.cong refl) (simp add: mult.commute)
    also have "\<dots> = (\<Sum>a<n. cell U i a * cell U j a)"
      by (rule gram_product) (rule V(2))
    finally show ?thesis using U(1) that by simp
  qed
  from rows cols show ?thesis
    by (simp add: orthogonal_def del: product_VUt_sel(3))
qed

lemma orthogonal_negate_last_row:
  assumes "orthogonal n q"
  shows "orthogonal n (negate_last_row q)"
proof -
  have q: "nrows q = n" "ncols q = n"
    and rows: "\<And>i j. i < n \<Longrightarrow> j < n \<Longrightarrow> (\<Sum>k<n. cell q i k * cell q j k) = (if i = j then 1 else 0)"
    and cols: "\<And>i j. i < n \<Longrightarrow> j < n \<Longrightarrow> (\<Sum>k<n. cell q k i * cell q k j) = (if i = j then 1 else 0)"
    using assms by (simp_all add: orthogonal_def)
  let ?s = "\<lambda>i. if i = n - 1 then - 1 else (1::real)"
  have c: "cell (negate_last_row q) i j = ?s i * cell q i j" if "j < n" for i j
    using that q by simp
  have r: "(\<Sum>k<n. cell (negate_last_row q) i k * cell (negate_last_row q) j k)
      = (if i = j then 1 else 0)" if "i < n" "j < n" for i j
  proof -
    have "(\<Sum>k<n. cell (negate_last_row q) i k * cell (negate_last_row q) j k)
        = (\<Sum>k<n. ?s i * ?s j * (cell q i k * cell q j k))"
      by (intro sum.cong refl) (simp add: c del: negate_last_row_sel(3))
    also have "\<dots> = ?s i * ?s j * (\<Sum>k<n. cell q i k * cell q j k)"
      by (simp only: sum_distrib_left)
    finally show ?thesis using rows [OF that] by auto
  qed
  have cl: "(\<Sum>k<n. cell (negate_last_row q) k i * cell (negate_last_row q) k j)
      = (if i = j then 1 else 0)" if "i < n" "j < n" for i j
  proof -
    have "(\<Sum>k<n. cell (negate_last_row q) k i * cell (negate_last_row q) k j)
        = (\<Sum>k<n. cell q k i * cell q k j)"
      using that by (intro sum.cong refl) (simp add: c del: negate_last_row_sel(3))
    then show ?thesis using cols [OF that] by simp
  qed
  from r cl q show ?thesis
    by (simp add: orthogonal_def del: negate_last_row_sel(3))
qed

lemma det_negate_last_row:
  assumes "nrows q = n" "ncols q = n" "0 < n"
  shows "det n (cell (negate_last_row q)) = - det n (cell q)"
proof -
  have "det n (cell (negate_last_row q))
      = det n (setrow (cell q) (n - 1) (\<lambda>j. - 1 * cell q (n - 1) j))"
    by (rule det_cong) (use assms in \<open>simp add: setrow_def\<close>)
  also have "\<dots> = - 1 * det n (setrow (cell q) (n - 1) (cell q (n - 1)))"
    by (rule det_setrow_scale) (use assms in simp)
  finally show ?thesis
    by (simp add: setrow_same)
qed

lemma orthogonal_det:
  assumes "orthogonal n q"
  shows "det n (cell q) = 1 \<or> det n (cell q) = - 1"
proof -
  have "det n (\<lambda>i j. \<Sum>k<n. cell q i k * cell q j k) = det n (cell q) * det n (\<lambda>k j. cell q j k)"
    by (rule det_mul)
  also have "det n (\<lambda>k j. cell q j k) = det n (cell q)"
    by (rule det_transpose)
  also have "det n (\<lambda>i j. \<Sum>k<n. cell q i k * cell q j k) = det n (\<lambda>i j. if i = j then 1 else 0)"
    by (rule det_cong) (use assms in \<open>simp add: orthogonal_def\<close>)
  finally have "det n (cell q) * det n (cell q) = 1"
    by (simp add: det_identity)
  then show ?thesis
    by (simp add: power2_eq_square [symmetric] power2_eq_1_iff)
qed

text \<open>The identity factors are a decomposition of the covariance of the unit square with itself.\<close>

lemma covariance_unit_square: "covariance unit_square unit_square = Identity 2 2"
proof (rule matrix_eqI)
  fix i j :: nat
  have d: "nrows unit_square = Suc (Suc (Suc (Suc 0)))" "ncols unit_square = Suc (Suc 0)"
    by (simp_all add: unit_square_def)
  have m: "column_mean unit_square 0 = 1 / 2" "column_mean unit_square (Suc 0) = 1 / 2"
    by (simp_all add: column_mean_def unit_square_def lessThan_Suc numeral_eq_Suc)
  have c: "cell unit_square 0 0 = 0" "cell unit_square 0 (Suc 0) = 0"
    "cell unit_square (Suc 0) 0 = 1" "cell unit_square (Suc 0) (Suc 0) = 0"
    "cell unit_square (Suc (Suc 0)) 0 = 1" "cell unit_square (Suc (Suc 0)) (Suc 0) = 1"
    "cell unit_square (Suc (Suc (Suc 0))) 0 = 0" "cell unit_square (Suc (Suc (Suc 0))) (Suc 0) = 1"
    by (simp_all add: unit_square_def)
  have ij: "i < Suc (Suc 0) \<Longrightarrow> i = 0 \<or> i = Suc 0" "j < Suc (Suc 0) \<Longrightarrow> j = 0 \<or> j = Suc 0"
    by auto
  show "cell (covariance unit_square unit_square) i j = cell (Identity 2 2) i j"
    using ij
    by (auto simp: covariance_def Identity_def d m c lessThan_Suc numeral_2_eq_2)
qed (simp_all add: covariance_def Identity_def unit_square_def)

lemma orthogonal_transpose_product:
  assumes "orthogonal n q"
  shows "mat_mul (transpose_m q) q = Inr (Identity n n)"
  using assms
  by (auto simp: orthogonal_def mat_mul_def transpose_m_def Identity_def intro!: matrix_eqI)

text \<open>
  Claim C2. For a reference and a target of equal shape, when the decomposition returns
  orthogonal factors \<open>U\<close> and \<open>V\<close> of their covariance, \<open>solveForOptimalRotation\<close> returns a matrix
  \<open>R\<close> of determinant \<open>1\<close> with orthonormal rows and columns, \<open>R\<^sup>T * R = I\<close>: it is \<open>V * U\<^sup>T\<close>, with
  its last row negated when the determinant of \<open>V * U\<^sup>T\<close> is negative. The reference has at least
  one point, since the source divides by the number of rows to centre the points.
\<close>

theorem solveForOptimalRotation_proper:
  assumes "0 < nrows ref" and "nrows target = nrows ref" and "ncols target = ncols ref"
    and "orthogonal (ncols ref) (fst (svd (covariance ref target)))"
    and "orthogonal (ncols ref) (snd (svd (covariance ref target)))"
  shows "\<exists>R. solveForOptimalRotation svd u ref target = Inr R \<and>
           determinant R = Inr 1 \<and>
           orthogonal (ncols ref) R \<and>
           mat_mul (transpose_m R) R = Inr (Identity (ncols ref) (ncols ref)) \<and>
           R = (let matrixU = fst (svd (covariance ref target));
                    matrixV = snd (svd (covariance ref target));
                    VUt = product_VUt (ncols ref) matrixU matrixV
                in if det (ncols ref) (cell VUt) < 0 then negate_last_row VUt else VUt)"
proof -
  define n where "n = ncols ref"
  define U V where "U = fst (svd (covariance ref target))" and "V = snd (svd (covariance ref target))"
  define P where "P = product_VUt n U V"
  define R where "R = (if det n (cell P) < 0 then negate_last_row P else P)"
  have o: "orthogonal n U" "orthogonal n V"
    using assms(4,5) by (simp_all add: n_def U_def V_def)
  then have shape: "nrows U = n" "ncols U = n" "nrows V = n" "ncols V = n"
    by (simp_all add: orthogonal_def)
  have run: "solveForOptimalRotation svd u ref target = Inr R"
    using solveForOptimalRotation_covariance [OF assms(1,2), of svd u]
      rotation_of_factors [OF shape]
    by (simp add: U_def V_def P_def R_def)
  have oP: "orthogonal n P"
    unfolding P_def using o by (rule orthogonal_product_VUt)
  have dP: "det n (cell P) = 1 \<or> det n (cell P) = - 1"
    using oP by (rule orthogonal_det)
  have oR: "orthogonal n R"
    using oP by (simp add: R_def orthogonal_negate_last_row)
  have dR: "det n (cell R) = 1"
  proof (cases "det n (cell P) < 0")
    case True
    then have "n \<noteq> 0" by (cases n) simp_all
    then have "det n (cell (negate_last_row P)) = - det n (cell P)"
      by (intro det_negate_last_row) (simp_all add: P_def)
    with True dP show ?thesis by (simp add: R_def)
  next
    case False
    with dP show ?thesis by (auto simp: R_def)
  qed
  have "determinant R = Inr 1"
    using oR dR by (simp add: determinant_def orthogonal_def)
  moreover have "mat_mul (transpose_m R) R = Inr (Identity n n)"
    using oR by (rule orthogonal_transpose_product)
  ultimately show ?thesis
    using run oR by (simp add: Let_def R_def P_def U_def V_def n_def)
qed

theorem solveForOptimalRotation_proper_witness:
  "\<exists>R. solveForOptimalRotation identity_factors (\<lambda>i j. 0) unit_square unit_square = Inr R \<and>
       determinant R = Inr 1 \<and> orthogonal 2 R \<and>
       mat_mul (transpose_m R) R = Inr (Identity 2 2)"
proof -
  have c: "nrows (covariance unit_square unit_square) = 2"
    "ncols (covariance unit_square unit_square) = 2"
    by (simp_all add: covariance_def unit_square_def)
  have pos: "0 < nrows unit_square"
    by (simp add: unit_square_def)
  have "orthogonal (ncols unit_square) (fst (identity_factors (covariance unit_square unit_square)))"
    "orthogonal (ncols unit_square) (snd (identity_factors (covariance unit_square unit_square)))"
    using orthogonal_Identity [of 2]
    by (simp_all add: identity_factors_def c) (simp_all add: unit_square_def)
  from solveForOptimalRotation_proper [of unit_square unit_square identity_factors "\<lambda>i j. 0",
      OF pos refl refl this]
  obtain R where "solveForOptimalRotation identity_factors (\<lambda>i j. 0) unit_square unit_square = Inr R"
    "determinant R = Inr 1" "orthogonal (ncols unit_square) R"
    "mat_mul (transpose_m R) R = Inr (Identity (ncols unit_square) (ncols unit_square))"
    by (auto simp: unit_square_def)
  then show ?thesis
    by (auto simp: unit_square_def)
qed

end
